theory Spec2Isabelle
  imports Complex_Main "HOL-Library.Log_Nat"
begin

section \<open>Characters and the string methods the organizer uses\<close>

text \<open>
  File names are modelled as \<open>string\<close>, read as ASCII text: the character classes
  below are those of Python's \<open>str\<close> methods and of the \<open>re\<close> module restricted to
  code points below 128. Characters above that are outside the model: here they are
  symbols without case that are neither letters, digits nor blanks, which is not what
  Python does with them, so statements about casing are made for \<open>is_ascii\<close> text.
\<close>

definition lowers :: string where
  "lowers = ''abcdefghijklmnopqrstuvwxyz''"

definition uppers :: string where
  "uppers = ''ABCDEFGHIJKLMNOPQRSTUVWXYZ''"

definition isdigit :: "char \<Rightarrow> bool" where
  "isdigit c = (c \<in> set ''0123456789'')"

definition islower_c :: "char \<Rightarrow> bool" where
  "islower_c c = (c \<in> set lowers)"

definition isupper_c :: "char \<Rightarrow> bool" where
  "isupper_c c = (c \<in> set uppers)"

definition isalpha :: "char \<Rightarrow> bool" where
  "isalpha c = (isupper_c c \<or> islower_c c)"

text \<open>\<open>\s\<close> of a \<open>str\<close> pattern and \<open>str.isspace\<close> on ASCII text: tab, LF, VT,
  FF, CR, the four separators 0x1C..0x1F and the blank.\<close>

definition isspace :: "char \<Rightarrow> bool" where
  "isspace c = (c \<in> set [CHR 0x09, CHR 0x0A, CHR 0x0B, CHR 0x0C, CHR 0x0D,
                          CHR 0x1C, CHR 0x1D, CHR 0x1E, CHR 0x1F, CHR '' ''])"

definition is_delim :: "char \<Rightarrow> bool" where
  "is_delim c = (c = CHR ''-'' \<or> c = CHR ''_'')"

definition upper_c :: "char \<Rightarrow> char" where
  "upper_c c = (case map_of (zip lowers uppers) c of Some u \<Rightarrow> u | None \<Rightarrow> c)"

definition lower_c :: "char \<Rightarrow> char" where
  "lower_c c = (case map_of (zip uppers lowers) c of Some l \<Rightarrow> l | None \<Rightarrow> c)"

text \<open>\<open>str.upper\<close> and \<open>str.lower\<close>.\<close>

definition upper :: "string \<Rightarrow> string" where
  "upper s = map upper_c s"

definition lower :: "string \<Rightarrow> string" where
  "lower s = map lower_c s"

text \<open>A string of ASCII characters: every code point is below 128. On such strings the
  methods below are those of Python.\<close>

definition is_ascii :: "string \<Rightarrow> bool" where
  "is_ascii s = (\<forall>c \<in> set s. \<not> digit7 c)"

text \<open>\<open>str.isupper\<close>: at least one cased character and no lowercase one.\<close>

definition isupper :: "string \<Rightarrow> bool" where
  "isupper s = ((\<exists>c \<in> set s. isupper_c c) \<and> \<not> (\<exists>c \<in> set s. islower_c c))"

text \<open>\<open>str.capitalize\<close>: the first character uppercased, every other one lowercased.\<close>

fun capitalize :: "string \<Rightarrow> string" where
  "capitalize [] = []"
| "capitalize (c # cs) = upper_c c # lower cs"

text \<open>\<open>str.split(sep)\<close> for a one-character separator: always at least one piece.
  Splitting and joining do not depend on what the characters are.\<close>

fun split_on :: "'c \<Rightarrow> 'c list \<Rightarrow> 'c list list" where
  "split_on sep [] = [[]]"
| "split_on sep (c # cs) =
     (if c = sep then [] # split_on sep cs
      else (case split_on sep cs of
              w # ws \<Rightarrow> (c # w) # ws
            | [] \<Rightarrow> [[c]]))"

text \<open>\<open>sep.join(words)\<close>.\<close>

fun join_with :: "'c list \<Rightarrow> 'c list list \<Rightarrow> 'c list" where
  "join_with sep [] = []"
| "join_with sep [w] = w"
| "join_with sep (w # ws) = w @ sep @ join_with sep ws"

text \<open>\<open>str.rstrip(chars)\<close>.\<close>

definition rstrip :: "string \<Rightarrow> string \<Rightarrow> string" where
  "rstrip chars s = rev (dropWhile (\<lambda>c. c \<in> set chars) (rev s))"

text \<open>\<open>str.rfind(ch)\<close>: the last index of the character, or -1.\<close>

fun rfind_from :: "char \<Rightarrow> string \<Rightarrow> int \<Rightarrow> int \<Rightarrow> int" where
  "rfind_from ch [] i found = found"
| "rfind_from ch (c # cs) i found = rfind_from ch cs (i + 1) (if c = ch then i else found)"

definition rfind :: "char \<Rightarrow> string \<Rightarrow> int" where
  "rfind ch s = rfind_from ch s 0 (-1)"

text \<open>
  \<open>$\<close> without the MULTILINE flag matches at the end of the string and also just before
  a final line feed. Every pattern of the organizer that ends in \<open>$\<close> ends in a
  character that is not a line feed, so such a pattern matches up to the end of the
  string with one final line feed removed.
\<close>

definition ends_nl :: "string \<Rightarrow> bool" where
  "ends_nl s = (s \<noteq> [] \<and> last s = CHR 0x0A)"

definition chop_nl :: "string \<Rightarrow> string" where
  "chop_nl s = (if ends_nl s then butlast s else s)"

definition nl_tail :: "string \<Rightarrow> string" where
  "nl_tail s = (if ends_nl s then [CHR 0x0A] else [])"

text \<open>\<open>os.path.splitext\<close> (posixpath): the extension starts at the last dot of the last
  path component, unless only dots precede it there.\<close>

definition splitext :: "string \<Rightarrow> string \<times> string" where
  "splitext p =
     (let r = rev p;
          ext_rev = takeWhile (\<lambda>c. c \<noteq> CHR ''.'' \<and> c \<noteq> CHR ''/'') r;
          rest = dropWhile (\<lambda>c. c \<noteq> CHR ''.'' \<and> c \<noteq> CHR ''/'') r
      in (case rest of
            [] \<Rightarrow> (p, [])
          | d # stem_rev \<Rightarrow>
              if d = CHR ''.'' \<and> (\<exists>c \<in> set (takeWhile (\<lambda>c. c \<noteq> CHR ''/'') stem_rev). c \<noteq> CHR ''.'')
              then (rev stem_rev, CHR ''.'' # rev ext_rev)
              else (p, [])))"

section \<open>Detection helpers\<close>

subsection \<open>sanitize_folder_name\<close>

definition reserved_names :: "string list" where
  "reserved_names =
     [''CON'', ''PRN'', ''AUX'', ''NUL'',
      ''COM1'', ''COM2'', ''COM3'', ''COM4'', ''COM5'', ''COM6'', ''COM7'', ''COM8'', ''COM9'',
      ''LPT1'', ''LPT2'', ''LPT3'', ''LPT4'', ''LPT5'', ''LPT6'', ''LPT7'', ''LPT8'', ''LPT9'']"

text \<open>\<open>folder_name.split('.')[0]\<close> is the text before the first dot.\<close>

definition sanitize_folder_name :: "string \<Rightarrow> string" where
  "sanitize_folder_name folder_name =
     (if folder_name = [] then folder_name
      else (let base_name = upper (takeWhile (\<lambda>c. c \<noteq> CHR ''.'') folder_name)
            in if base_name \<in> set reserved_names then folder_name @ ''_''
               else folder_name))"

text \<open>A name is reserved when it equals a device name up to letter case.\<close>

definition is_reserved :: "string \<Rightarrow> bool" where
  "is_reserved s = (upper s \<in> set reserved_names)"


subsection \<open>smart_title\<close>

definition smart_title :: "string \<Rightarrow> string" where
  "smart_title text =
     join_with ''_'' (map (\<lambda>w. if isupper w then w else capitalize w) (split_on CHR ''_'' text))"

text \<open>
  The same line of the source over an arbitrary alphabet: the underscore and the methods
  \<open>str.isupper\<close> and \<open>str.capitalize\<close> are parameters, so that nothing is said about
  which characters are letters. \<open>smart_title\<close> is the case of ASCII text.
\<close>

definition smart_title_with ::
  "'c \<Rightarrow> ('c list \<Rightarrow> bool) \<Rightarrow> ('c list \<Rightarrow> 'c list) \<Rightarrow> 'c list \<Rightarrow> 'c list" where
  "smart_title_with underscore str_isupper str_capitalize text =
     join_with [underscore]
       (map (\<lambda>w. if str_isupper w then w else str_capitalize w) (split_on underscore text))"

subsection \<open>The regular expressions of detect_folder_name\<close>

text \<open>
  \<open>re.sub(r'\s*[\-_]?\(\d+\)$', '', base)\<close>: the leftmost match is the parenthesised
  number at the end, the one delimiter directly before it when there is one, and all the
  white space before that. A final line feed after the match stays.
\<close>

definition strip_dup_marker :: "string \<Rightarrow> string" where
  "strip_dup_marker base =
     (case rev (chop_nl base) of
        [] \<Rightarrow> base
      | c # r \<Rightarrow>
          if c \<noteq> CHR '')'' then base
          else (let ds = takeWhile isdigit r; r1 = dropWhile isdigit r
                in (case r1 of
                      [] \<Rightarrow> base
                    | p # r2 \<Rightarrow>
                        if ds = [] \<or> p \<noteq> CHR ''('' then base
                        else (let r3 = (case r2 of
                                          [] \<Rightarrow> r2
                                        | d # r2' \<Rightarrow> if is_delim d then r2' else r2)
                              in rev (dropWhile isspace r3) @ nl_tail base))))"

text \<open>
  \<open>re.sub(r'(?<=[\-_])\d+[A-Za-z]?$', '', base)\<close>: a run of digits at the end, with at
  most one letter after it, is removed when a delimiter stands directly before the run.
\<close>

definition strip_number_suffix :: "string \<Rightarrow> string" where
  "strip_number_suffix base =
     (let r = rev (chop_nl base);
          r1 = (case r of [] \<Rightarrow> r | c # r' \<Rightarrow> if isalpha c then r' else r);
          ds = takeWhile isdigit r1;
          r2 = dropWhile isdigit r1
      in (case r2 of
            [] \<Rightarrow> base
          | d # _ \<Rightarrow> if ds \<noteq> [] \<and> is_delim d then rev r2 @ nl_tail base else base))"

text \<open>
  \<open>re.search(r'([\-_]?)(\d+)$', base)\<close>: the result is \<open>(base[:m.start()], m.group(1))\<close>,
  or \<open>None\<close> when the string does not end in a digit.
\<close>

definition search_trailing_number :: "string \<Rightarrow> (string \<times> string) option" where
  "search_trailing_number base =
     (let r = rev (chop_nl base);
          ds = takeWhile isdigit r;
          r1 = dropWhile isdigit r
      in if ds = [] then None
         else (case r1 of
                 [] \<Rightarrow> Some ([], [])
               | d # r2 \<Rightarrow> if is_delim d then Some (rev r2, [d]) else Some (rev r1, [])))"

text \<open>\<open>re.match(r"([A-Za-z]+)\d+$", pre)\<close>, giving \<open>group(1)\<close>.\<close>

definition match_letters_digits :: "string \<Rightarrow> string option" where
  "match_letters_digits pre =
     (let body = chop_nl pre;
          ls = takeWhile isalpha body;
          ds = dropWhile isalpha body
      in if ls \<noteq> [] \<and> ds \<noteq> [] \<and> (\<forall>c \<in> set ds. isdigit c) then Some ls else None)"

subsection \<open>detect_folder_name\<close>

definition hyphen_title :: "string \<Rightarrow> string" where
  "hyphen_title pre = join_with ''-'' (map capitalize (split_on CHR ''-'' pre))"

definition detect_folder_name :: "string \<Rightarrow> string option" where
  "detect_folder_name filename =
     (let base0 = fst (splitext filename);
          base1 = rstrip '' .'' (strip_dup_marker base0);
          base = rstrip '' _-.'' (strip_number_suffix base1);
          (pre, delim) = (case search_trailing_number base of
                            Some (p, d) \<Rightarrow> (p, d)
                          | None \<Rightarrow> (base, []));
          us = CHR ''_'' \<in> set pre;
          hy = CHR ''-'' \<in> set pre;
          folder =
            (if us \<and> \<not> hy then
               Some (smart_title pre @ (if delim = ''-'' then ''[-]'' else []))
             else if hy \<and> \<not> us then
               Some (hyphen_title pre @ (if delim = ''_'' then ''[_]'' else []))
             else if hy \<and> us then
               Some ((if rfind CHR ''-'' pre > rfind CHR ''_'' pre then hyphen_title pre
                      else smart_title pre)
                     @ (if delim = ''_'' then ''[_]'' else if delim = ''-'' then ''[-]'' else []))
             else map_option capitalize (match_letters_digits pre))
      in (case folder of
            None \<Rightarrow> None
          | Some f \<Rightarrow> if f = [] then None else Some (sanitize_folder_name (rstrip '' .'' f))))"

subsection \<open>extract_img_tag\<close>

definition camera_tags :: "string list" where
  "camera_tags = [''IMG'', ''DSC'', ''DSCN'', ''DCS'', ''DCSN'']"

text \<open>The lookahead \<open>(?=\d|_|\.|$)\<close> on the text after the tag.\<close>

definition tag_lookahead :: "string \<Rightarrow> bool" where
  "tag_lookahead rest =
     (case rest of
        [] \<Rightarrow> True
      | c # cs \<Rightarrow> isdigit c \<or> c = CHR ''_'' \<or> c = CHR ''.'' \<or> (c = CHR 0x0A \<and> cs = []))"

text \<open>One alternative of the group, tried at the head of the string, ignoring case.\<close>

definition tag_at :: "string \<Rightarrow> string \<Rightarrow> bool" where
  "tag_at s t =
     (length t \<le> length s \<and> upper (take (length t) s) = t \<and> tag_lookahead (drop (length t) s))"

text \<open>\<open>re.search\<close>: the leftmost position wins, and there the first alternative that
  matches together with the lookahead. The result is \<open>m.group(1).upper()\<close>.\<close>

fun search_img_tag :: "string \<Rightarrow> string option" where
  "search_img_tag [] = None"
| "search_img_tag (c # cs) =
     (case find (tag_at (c # cs)) camera_tags of
        Some t \<Rightarrow> Some (upper (take (length t) (c # cs)))
      | None \<Rightarrow> search_img_tag cs)"

definition extract_img_tag :: "string \<Rightarrow> string option" where
  "extract_img_tag filename = map_option sanitize_folder_name (search_img_tag filename)"

subsection \<open>detect_sequential_pattern\<close>

text \<open>\<open>re.match(r'^(.+?)([-_])(\d{2,})$', base)\<close>, giving \<open>group(1)\<close>: the dot does not
  match a line feed.\<close>

definition match_sep_digits :: "string \<Rightarrow> string option" where
  "match_sep_digits base =
     (let r = rev (chop_nl base);
          ds = takeWhile isdigit r;
          r1 = dropWhile isdigit r
      in (case r1 of
            [] \<Rightarrow> None
          | d # r2 \<Rightarrow>
              if 2 \<le> length ds \<and> is_delim d \<and> r2 \<noteq> [] \<and> CHR 0x0A \<notin> set r2
              then Some (rev r2) else None))"

text \<open>\<open>re.match(r'^([A-Za-z]+)(\d{2,})$', base)\<close>, giving \<open>group(1)\<close>.\<close>

definition match_nosep_digits :: "string \<Rightarrow> string option" where
  "match_nosep_digits base =
     (let body = chop_nl base;
          ls = takeWhile isalpha body;
          ds = dropWhile isalpha body
      in if ls \<noteq> [] \<and> 2 \<le> length ds \<and> (\<forall>c \<in> set ds. isdigit c) then Some ls else None)"

text \<open>\<open>re.match(r'^(\d+)([-_])(\d{2,})$', base)\<close>, giving \<open>group(1)\<close>.\<close>

definition match_numeric_base :: "string \<Rightarrow> string option" where
  "match_numeric_base base =
     (let body = chop_nl base;
          d1 = takeWhile isdigit body;
          rest = dropWhile isdigit body
      in (case rest of
            [] \<Rightarrow> None
          | d # d2 \<Rightarrow>
              if d1 \<noteq> [] \<and> is_delim d \<and> 2 \<le> length d2 \<and> (\<forall>c \<in> set d2. isdigit c)
              then Some d1 else None))"

definition detect_sequential_pattern :: "string \<Rightarrow> string option" where
  "detect_sequential_pattern filename =
     (let base = rstrip '' .'' (strip_dup_marker (fst (splitext filename)))
      in (case match_sep_digits base of
            Some base_name \<Rightarrow>
              if isupper base_name then Some (sanitize_folder_name base_name)
              else Some (sanitize_folder_name (capitalize base_name))
          | None \<Rightarrow>
              (case match_nosep_digits base of
                 Some base_name \<Rightarrow>
                   if isupper base_name then Some (sanitize_folder_name base_name)
                   else Some (sanitize_folder_name (capitalize base_name))
               | None \<Rightarrow>
                   (case match_numeric_base base of
                      Some g \<Rightarrow> Some (sanitize_folder_name g)
                    | None \<Rightarrow> None))))"


text \<open>
  The part of \<open>detect_sequential_pattern\<close> after the three calls of \<open>re.match\<close>, over
  an arbitrary alphabet: the arguments are \<open>group(1)\<close> of each match (\<open>None\<close> for no
  match) and the methods \<open>str.isupper\<close>, \<open>str.capitalize\<close> and the sanitization.
\<close>

definition sequential_folder_with ::
  "('s \<Rightarrow> bool) \<Rightarrow> ('s \<Rightarrow> 's) \<Rightarrow> ('s \<Rightarrow> 's) \<Rightarrow> 's option \<Rightarrow> 's option \<Rightarrow> 's option
     \<Rightarrow> 's option" where
  "sequential_folder_with str_isupper str_capitalize sanitize m_sep m_no_sep m_numeric =
     (case m_sep of
        Some base_name \<Rightarrow>
          if str_isupper base_name then Some (sanitize base_name)
          else Some (sanitize (str_capitalize base_name))
      | None \<Rightarrow>
          (case m_no_sep of
             Some base_name \<Rightarrow>
               if str_isupper base_name then Some (sanitize base_name)
               else Some (sanitize (str_capitalize base_name))
           | None \<Rightarrow>
               (case m_numeric of
                  Some g \<Rightarrow> Some (sanitize g)
                | None \<Rightarrow> None)))"

section \<open>PatternLearner\<close>

text \<open>Exceptions of the Python run time that the model tracks as values.\<close>

datatype py_error = IndexError | OSError

text \<open>\<open>base[i]\<close>: an index past the end raises.\<close>

definition char_at :: "string \<Rightarrow> nat \<Rightarrow> py_error + char" where
  "char_at s i = (if i < length s then Inr (s ! i) else Inl IndexError)"

subsection \<open>extract_signature\<close>

text \<open>The inner loop \<open>while i < len(base) and base[i].isdigit()\<close>, returning the new
  index and the count.\<close>

function digits_loop :: "string \<Rightarrow> nat \<Rightarrow> nat \<Rightarrow> py_error + (nat \<times> nat)" where
  "digits_loop base i cnt =
     (if i < length base then
        (case char_at base i of
           Inl e \<Rightarrow> Inl e
         | Inr c \<Rightarrow> if isdigit c then digits_loop base (i + 1) (cnt + 1) else Inr (i, cnt))
      else Inr (i, cnt))"
  by pat_completeness auto
termination
  by (relation "measure (\<lambda>(base, i, cnt). length base - i)") auto

text \<open>The inner loop \<open>while i < len(base) and base[i].isalpha()\<close>, returning the new
  index and \<open>text_part\<close>.\<close>

function letters_loop :: "string \<Rightarrow> nat \<Rightarrow> string \<Rightarrow> py_error + (nat \<times> string)" where
  "letters_loop base i text_part =
     (if i < length base then
        (case char_at base i of
           Inl e \<Rightarrow> Inl e
         | Inr c \<Rightarrow> if isalpha c then letters_loop base (i + 1) (text_part @ [c])
                    else Inr (i, text_part))
      else Inr (i, text_part))"
  by pat_completeness auto
termination
  by (relation "measure (\<lambda>(base, i, text_part). length base - i)") auto

text \<open>
  The outer loop \<open>while i < len(base)\<close>: \<open>Inl e\<close> stands for a raised exception and
  \<open>Inr signature\<close> for the list of signature parts at the end of the loop. Each round
  moves the index forward, by one or by what the inner loop consumed.
\<close>

function sig_loop :: "string \<Rightarrow> nat \<Rightarrow> string list \<Rightarrow> py_error + string list" where
  "sig_loop base i signature =
     (if i < length base then
        (case char_at base i of
           Inl e \<Rightarrow> Inl e
         | Inr c \<Rightarrow>
             if isdigit c then
               (case digits_loop base i 0 of
                  Inl e \<Rightarrow> Inl e
                | Inr (i', cnt) \<Rightarrow> sig_loop base i' (signature @ [replicate cnt CHR ''N'']))
             else if isalpha c then
               (case letters_loop base i [] of
                  Inl e \<Rightarrow> Inl e
                | Inr (i', text_str) \<Rightarrow>
                    sig_loop base i'
                      (signature @ [if isupper text_str \<and> length text_str \<le> 5 then text_str
                                    else ''TEXT'']))
             else sig_loop base (i + 1) (signature @ [[c]]))
      else Inr signature)"
  by pat_completeness auto
termination
proof (relation "measure (\<lambda>(base, i, signature). length base - i)")
  show "wf (measure (\<lambda>(base, i, signature). length base - i))"
    by simp
next
  fix base :: string and i :: nat and signature :: "string list" and c :: char
    and x :: "nat \<times> nat" and i' cnt :: nat
  assume lt: "i < length base" and c: "char_at base i = Inr c" and d: "isdigit c"
    and run: "digits_loop base i 0 = Inr x" and x: "(i', cnt) = x"
  have step: "\<And>j n r. digits_loop base j n = Inr r \<Longrightarrow> j \<le> fst r"
  proof -
    fix j n r
    show "digits_loop base j n = Inr r \<Longrightarrow> j \<le> fst r"
    proof (induction base j n rule: digits_loop.induct)
      case (1 base j n)
      then show ?case
        by (auto simp: char_at_def split: if_splits dest: Suc_leD)
    qed
  qed
  from lt c d have "digits_loop base i 0 = digits_loop base (i + 1) 1"
    by simp
  with run have "digits_loop base (i + 1) 1 = Inr x" by simp
  from step [OF this] x have "i < i'" by (cases x) auto
  with lt show "((base, i', signature @ [replicate cnt CHR ''N'']), (base, i, signature))
        \<in> measure (\<lambda>(base, i, signature). length base - i)"
    by simp
next
  fix base :: string and i :: nat and signature :: "string list" and c :: char
    and x :: "nat \<times> string" and i' :: nat and text_str :: string
  assume lt: "i < length base" and c: "char_at base i = Inr c" and nd: "\<not> isdigit c"
    and a: "isalpha c" and run: "letters_loop base i [] = Inr x" and x: "(i', text_str) = x"
  have step: "\<And>j t r. letters_loop base j t = Inr r \<Longrightarrow> j \<le> fst r"
  proof -
    fix j t r
    show "letters_loop base j t = Inr r \<Longrightarrow> j \<le> fst r"
    proof (induction base j t rule: letters_loop.induct)
      case (1 base j t)
      then show ?case
        by (auto simp: char_at_def split: if_splits dest: Suc_leD)
    qed
  qed
  from lt c a have "letters_loop base i [] = letters_loop base (i + 1) [c]"
    by simp
  with run have "letters_loop base (i + 1) [c] = Inr x" by simp
  from step [OF this] x have "i < i'" by (cases x) auto
  with lt show "((base, i', signature @ [if isupper text_str \<and> length text_str \<le> 5
                                        then text_str else ''TEXT'']), (base, i, signature))
        \<in> measure (\<lambda>(base, i, signature). length base - i)"
    by simp
next
  fix base :: string and i :: nat and signature :: "string list" and c :: char
  assume "i < length base"
  then show "((base, i + 1, signature @ [[c]]), (base, i, signature))
        \<in> measure (\<lambda>(base, i, signature). length base - i)"
    by simp
qed

definition extract_signature :: "string \<Rightarrow> py_error + string" where
  "extract_signature filename =
     (case sig_loop (fst (splitext filename)) 0 [] of
        Inl e \<Rightarrow> Inl e
      | Inr signature \<Rightarrow> Inr (concat signature))"


subsection \<open>Floating point\<close>

text \<open>
  Python's \<open>float\<close> is the IEEE 754 double: a float is the rational number it stands
  for, and every literal, conversion and operation gives the double nearest to the exact
  result, ties going to the even mantissa. The range of the exponent is not bounded
  here, so overflow and subnormal numbers are outside the model.
\<close>

definition pow2 :: "int \<Rightarrow> rat" where
  "pow2 e = (if 0 \<le> e then 2 ^ nat e else 1 / 2 ^ nat (- e))"

text \<open>The exponent of a positive number: \<open>pow2 e \<le> x < pow2 (e + 1)\<close>.\<close>

definition ilog2 :: "rat \<Rightarrow> int" where
  "ilog2 x =
     (let (p, q) = quotient_of x;
          e0 = bitlen p - bitlen q
      in if pow2 e0 \<le> x then e0 else e0 - 1)"

definition round_half_even :: "rat \<Rightarrow> int" where
  "round_half_even m =
     (let f = \<lfloor>m\<rfloor>; d = m - of_int f
      in if d < 1 / 2 then f
         else if 1 / 2 < d then f + 1
         else if even f then f else f + 1)"

text \<open>Rounding to 53 significant bits.\<close>

definition round_double :: "rat \<Rightarrow> rat" where
  "round_double x =
     (if x = 0 then 0
      else (let a = \<bar>x\<bar>;
                ulp = pow2 (ilog2 a - 52);
                r = of_int (round_half_even (a / ulp)) * ulp
            in if x < 0 then - r else r))"

text \<open>A float literal, \<open>float(n)\<close> for an integer, and the sum and product of floats.\<close>

definition float_lit :: "rat \<Rightarrow> rat" where
  "float_lit r = round_double r"

definition float_of_int :: "int \<Rightarrow> rat" where
  "float_of_int n = round_double (of_int n)"

definition float_add :: "rat \<Rightarrow> rat \<Rightarrow> rat" where
  "float_add a b = round_double (a + b)"

definition float_mul :: "rat \<Rightarrow> rat \<Rightarrow> rat" where
  "float_mul a b = round_double (a * b)"

subsection \<open>The learned patterns\<close>

text \<open>
  \<open>self.patterns\<close> maps a signature to a dictionary with the keys \<open>folder\<close>, \<open>count\<close>
  and \<open>examples\<close>, as \<open>learn\<close> writes them; \<open>learn\<close> itself allows for an entry without
  the \<open>examples\<close> key, so that field is optional here.
  Writing the dictionary to its file (\<open>_save_patterns\<close>) changes nothing in memory
  and swallows its own errors, so it has no counterpart here. The confidence that
  \<open>predict\<close> computes is the float of the source, \<open>min(0.99, 0.80 + (count * 0.03))\<close>
  with the integer count converted for the product.
\<close>

record pattern =
  pat_folder :: string
  pat_count :: int
  pat_examples :: "string list option"

type_synonym patterns = "string \<rightharpoonup> pattern"

definition last5 :: "string list \<Rightarrow> string list" where
  "last5 xs = drop (length xs - 5) xs"

definition learn :: "patterns \<Rightarrow> string \<Rightarrow> string \<Rightarrow> py_error + patterns" where
  "learn pats filename folder =
     (case extract_signature filename of
        Inl e \<Rightarrow> Inl e
      | Inr signature \<Rightarrow>
          (case pats signature of
             None \<Rightarrow>
               Inr (pats(signature \<mapsto>
                      \<lparr>pat_folder = folder, pat_count = 1, pat_examples = Some [filename]\<rparr>))
           | Some p \<Rightarrow>
               (let (pats1, p1) =
                      (if pat_folder p = folder then (pats, p\<lparr>pat_count := pat_count p + 1\<rparr>)
                       else if pat_count p > 3 then
                         (pats(signature @ ''_ALT'' \<mapsto>
                            \<lparr>pat_folder = folder, pat_count = 1, pat_examples = Some [filename]\<rparr>),
                          p)
                       else (pats, p\<lparr>pat_folder := folder, pat_count := 1\<rparr>));
                    ex = (case pat_examples p1 of None \<Rightarrow> [] | Some e \<Rightarrow> e) @ [filename]
                in Inr (pats1(signature \<mapsto> p1\<lparr>pat_examples := Some (last5 ex)\<rparr>)))))"

definition predict :: "patterns \<Rightarrow> string \<Rightarrow> py_error + (string \<times> rat) option" where
  "predict pats filename =
     (case extract_signature filename of
        Inl e \<Rightarrow> Inl e
      | Inr signature \<Rightarrow>
          (case pats signature of
             Some p \<Rightarrow>
               Inr (Some (pat_folder p,
                          min (float_lit (99 / 100))
                            (float_add (float_lit (80 / 100))
                               (float_mul (float_of_int (pat_count p)) (float_lit (3 / 100))))))
           | None \<Rightarrow> Inr None))"

section \<open>IntelligentPatternDetector\<close>

text \<open>\<open>if camera_tag:\<close> and its like: \<open>None\<close> and the empty string both count as no hit.
  The confidences 0.95, 0.90, 0.80 and 0.0 are literals that \<open>detect\<close> returns as they
  are, with no arithmetic; they are written as the decimal fractions they denote.\<close>

definition truthy :: "string option \<Rightarrow> bool" where
  "truthy r = (case r of None \<Rightarrow> False | Some s \<Rightarrow> s \<noteq> [])"

definition detect :: "patterns \<Rightarrow> string \<Rightarrow> py_error + (string option \<times> rat \<times> string)" where
  "detect pats filename =
     (case predict pats filename of
        Inl e \<Rightarrow> Inl e
      | Inr (Some (folder, confidence)) \<Rightarrow> Inr (Some folder, confidence, ''Learned Pattern'')
      | Inr None \<Rightarrow>
          (let camera_tag = extract_img_tag filename in
           if truthy camera_tag then Inr (camera_tag, 95 / 100, ''Camera Tag'')
           else (let sequential = detect_sequential_pattern filename in
                 if truthy sequential then Inr (sequential, 90 / 100, ''Sequential Pattern'')
                 else (let smart = detect_folder_name filename in
                       if truthy smart then Inr (smart, 80 / 100, ''Smart Pattern'')
                       else Inr (None, 0, ''No Pattern'')))))"

section \<open>Missing file scanner\<close>

record pattern_data =
  files :: "(string \<times> int) list"
  prefix :: string
  suffix :: string
  padding :: nat
  extension :: string
  is_pure_numeric :: bool

definition default_pattern :: pattern_data where
  "default_pattern =
     \<lparr>files = [], prefix = [], suffix = [], padding = 0, extension = [], is_pure_numeric = False\<rparr>"

text \<open>\<open>int(digits)\<close> for a string of decimal digits.\<close>

definition digit_val :: "char \<Rightarrow> int" where
  "digit_val c =
     (case map_of (zip ''0123456789'' [0, 1, 2, 3, 4, 5, 6, 7, 8, 9]) c of
        Some v \<Rightarrow> v
      | None \<Rightarrow> 0)"

definition int_of_digits :: "string \<Rightarrow> int" where
  "int_of_digits ds = foldl (\<lambda>acc c. 10 * acc + digit_val c) 0 ds"

text \<open>\<open>re.match(r'^(\d+)$', name)\<close>, giving \<open>group(1)\<close>.\<close>

definition match_pure_numeric :: "string \<Rightarrow> string option" where
  "match_pure_numeric name =
     (let body = chop_nl name
      in if body \<noteq> [] \<and> (\<forall>c \<in> set body. isdigit c) then Some body else None)"

text \<open>\<open>re.match(r'^(.+?)(\d+)$', name)\<close>, giving \<open>(group(1), group(2))\<close>: the shortest
  prefix that leaves only digits.\<close>

definition match_prefix_number :: "string \<Rightarrow> (string \<times> string) option" where
  "match_prefix_number name =
     (let r = rev (chop_nl name);
          ds = rev (takeWhile isdigit r);
          pre = rev (dropWhile isdigit r)
      in if pre = [] then
           (if 2 \<le> length ds then Some (take 1 ds, drop 1 ds) else None)
         else if ds \<noteq> [] \<and> CHR 0x0A \<notin> set pre then Some (pre, ds)
         else None)"

text \<open>\<open>re.match(r'^(.+?)(\d+)(.+)$', name)\<close>, giving the three groups: the shortest
  prefix followed by a digit, then the longest run of digits that leaves a suffix.\<close>

definition match_prefix_number_suffix :: "string \<Rightarrow> (string \<times> string \<times> string) option" where
  "match_prefix_number_suffix name =
     (let body = chop_nl name
      in (case body of
            [] \<Rightarrow> None
          | c0 # rest \<Rightarrow>
              if CHR 0x0A \<in> set body then None
              else (let pre_tail = takeWhile (\<lambda>c. \<not> isdigit c) rest;
                        r1 = dropWhile (\<lambda>c. \<not> isdigit c) rest;
                        ds = takeWhile isdigit r1;
                        suf = dropWhile isdigit r1
                    in if r1 = [] then None
                       else if suf \<noteq> [] then Some (c0 # pre_tail, ds, suf)
                       else if 2 \<le> length ds then Some (c0 # pre_tail, butlast ds, [last ds])
                       else None)))"

text \<open>\<open>patterns[pattern_key]\<close> on the \<open>defaultdict\<close>, followed by the updates of the
  entry; the dictionary keeps its keys in the order of their first use.\<close>

fun update_entry ::
  "string \<Rightarrow> (pattern_data \<Rightarrow> pattern_data) \<Rightarrow> (string \<times> pattern_data) list
     \<Rightarrow> (string \<times> pattern_data) list" where
  "update_entry key f [] = [(key, f default_pattern)]"
| "update_entry key f ((k, v) # rest) =
     (if k = key then (k, f v) # rest else (k, v) # update_entry key f rest)"

text \<open>The body of the loop over the file names of the directory.\<close>

definition add_file ::
  "(string \<times> pattern_data) list \<Rightarrow> string \<Rightarrow> (string \<times> pattern_data) list" where
  "add_file pats filename =
     (let (name, ext) = splitext filename
      in (case match_pure_numeric name of
            Some g1 \<Rightarrow>
              update_entry (''PURE_NUMERIC_'' @ ext)
                (\<lambda>p. p\<lparr>files := files p @ [(filename, int_of_digits g1)],
                        prefix := [], suffix := [],
                        padding := max (padding p) (length g1),
                        extension := ext, is_pure_numeric := True\<rparr>) pats
          | None \<Rightarrow>
              (case match_prefix_number name of
                 Some (g1, g2) \<Rightarrow>
                   update_entry (g1 @ ''_'' @ ext)
                     (\<lambda>p. p\<lparr>files := files p @ [(filename, int_of_digits g2)],
                             prefix := g1, suffix := [],
                             padding := max (padding p) (length g2),
                             extension := ext, is_pure_numeric := False\<rparr>) pats
               | None \<Rightarrow>
                   (case match_prefix_number_suffix name of
                      Some (g1, g2, g3) \<Rightarrow>
                        update_entry (g1 @ ''_NUM_'' @ g3 @ ''_'' @ ext)
                          (\<lambda>p. p\<lparr>files := files p @ [(filename, int_of_digits g2)],
                                  prefix := g1, suffix := g3,
                                  padding := max (padding p) (length g2),
                                  extension := ext, is_pure_numeric := False\<rparr>) pats
                    | None \<Rightarrow> pats))))"

text \<open>\<open>detect_file_patterns\<close>, given the names of the plain files of the directory in
  the order \<open>os.listdir\<close> returns them.\<close>

definition detect_file_patterns :: "string list \<Rightarrow> (string \<times> pattern_data) list" where
  "detect_file_patterns listing =
     filter (\<lambda>(k, v). 2 \<le> length (files v)) (foldl add_file [] listing)"

definition find_missing_files :: "pattern_data \<Rightarrow> int list" where
  "find_missing_files pd =
     (if files pd = [] then []
      else (let numbers = sort (map snd (files pd));
                first_num = hd numbers;
                last_num = last numbers;
                start = (if is_pure_numeric pd then 1 else first_num)
            in filter (\<lambda>n. n \<notin> set numbers) [start..last_num]))"


section \<open>Hash-based duplicate detection\<close>

text \<open>
  A row of the table \<open>file_hashes\<close>: file name, size, hash, path and the time of the
  first sighting; the primary key is (file name, size, hash). The table is a list of
  rows. What can be hashed is given by a function from paths to digests, \<open>None\<close> where
  the file cannot be opened or read.
\<close>

type_synonym hash_row = "string \<times> int \<times> string \<times> string \<times> string"

definition compute_hash :: "(string \<Rightarrow> string option) \<Rightarrow> string \<Rightarrow> string option" where
  "compute_hash digests filepath = digests filepath"

definition row_key :: "hash_row \<Rightarrow> string \<times> int \<times> string" where
  "row_key r = (case r of (f, s, h, p, t) \<Rightarrow> (f, s, h))"

text \<open>\<open>INSERT OR REPLACE\<close>.\<close>

definition insert_or_replace :: "hash_row \<Rightarrow> hash_row list \<Rightarrow> hash_row list" where
  "insert_or_replace r db = filter (\<lambda>r'. row_key r' \<noteq> row_key r) db @ [r]"

text \<open>\<open>SELECT size, hash FROM file_hashes WHERE filename = ?\<close>.\<close>

definition select_by_filename :: "hash_row list \<Rightarrow> string \<Rightarrow> (int \<times> string) list" where
  "select_by_filename db filename =
     map (\<lambda>(f, s, h, p, t). (s, h)) (filter (\<lambda>(f, s, h, p, t). f = filename) db)"

text \<open>\<open>check_duplicate\<close> returns its answer and the table it leaves behind; \<open>now\<close> is
  the time stamp it would write.\<close>

definition check_duplicate ::
  "(string \<Rightarrow> string option) \<Rightarrow> string \<Rightarrow> hash_row list \<Rightarrow> string \<Rightarrow> int \<Rightarrow> string
     \<Rightarrow> (bool \<times> string) \<times> hash_row list" where
  "check_duplicate digests now db filename sz filepath =
     (let results = select_by_filename db filename
      in if results = [] then
           (case compute_hash digests filepath of
              None \<Rightarrow> ((False, []), db)
            | Some file_hash \<Rightarrow>
                if file_hash \<noteq> [] then
                  ((False, []), insert_or_replace (filename, sz, file_hash, filepath, now) db)
                else ((False, []), db))
         else
           (case compute_hash digests filepath of
              None \<Rightarrow> ((False, []), db)
            | Some file_hash \<Rightarrow>
                if file_hash = [] then ((False, []), db)
                else if \<exists>(existing_size, existing_hash) \<in> set results.
                          existing_hash = file_hash \<and> existing_size = sz
                then ((True, ''DUPES''), db)
                else ((True, ''DUPE SIZE''),
                      insert_or_replace (filename, sz, file_hash, filepath, now) db)))"

section \<open>move_file\<close>
















section \<open>Verification\<close>


subsection \<open>Reserved device names\<close>

lemma upper_c_cases: "upper_c c = c \<or> upper_c c \<in> set uppers"
proof (cases "map_of (zip lowers uppers) c")
  case None
  then show ?thesis by (simp add: upper_c_def)
next
  case (Some u)
  then have "(c, u) \<in> set (zip lowers uppers)" by (rule map_of_SomeD)
  then have "u \<in> set uppers" by (rule set_zip_rightD)
  with Some show ?thesis by (simp add: upper_c_def)
qed

lemma upper_c_dot: "upper_c c = CHR ''.'' \<longleftrightarrow> c = CHR ''.''"
proof
  assume "upper_c c = CHR ''.''"
  with upper_c_cases [of c] show "c = CHR ''.''" by (auto simp: uppers_def)
next
  assume "c = CHR ''.''"
  then show "upper_c c = CHR ''.''" by (simp add: upper_c_def lowers_def uppers_def)
qed

lemma reserved_shape:
  assumes "x \<in> set reserved_names"
  shows "x \<noteq> [] \<and> last x \<noteq> CHR ''_'' \<and> CHR ''.'' \<notin> set x"
  using assms unfolding reserved_names_def by auto

lemma upper_append_underscore: "upper (s @ ''_'') = upper s @ ''_''"
  by (simp add: upper_def upper_c_def lowers_def uppers_def)

lemma not_reserved_underscore: "\<not> is_reserved (s @ ''_'')"
proof
  assume "is_reserved (s @ ''_'')"
  then have "upper s @ ''_'' \<in> set reserved_names"
    by (simp add: is_reserved_def upper_append_underscore)
  from reserved_shape [OF this] show False by simp
qed

lemma reserved_no_dot:
  assumes "is_reserved s"
  shows "CHR ''.'' \<notin> set s"
proof
  assume "CHR ''.'' \<in> set s"
  then have "upper_c (CHR ''.'') \<in> set (upper s)" by (auto simp: upper_def)
  moreover have "upper_c (CHR ''.'') = CHR ''.''" by (simp add: upper_c_dot)
  ultimately have "CHR ''.'' \<in> set (upper s)" by simp
  moreover have "CHR ''.'' \<notin> set (upper s)"
    using assms reserved_shape unfolding is_reserved_def by blast
  ultimately show False by simp
qed

lemma reserved_takeWhile:
  assumes "is_reserved s"
  shows "takeWhile (\<lambda>c. c \<noteq> CHR ''.'') s = s"
proof -
  have "\<forall>c \<in> set s. c \<noteq> CHR ''.''" using reserved_no_dot [OF assms] by auto
  then show ?thesis by (simp only: takeWhile_eq_all_conv)
qed

lemma sanitize_not_reserved: "\<not> is_reserved (sanitize_folder_name s)"
proof (cases "s = []")
  case True
  then show ?thesis
    by (simp add: sanitize_folder_name_def is_reserved_def upper_def reserved_names_def)
next
  case False
  show ?thesis
  proof (cases "upper (takeWhile (\<lambda>c. c \<noteq> CHR ''.'') s) \<in> set reserved_names")
    case True
    with False have "sanitize_folder_name s = s @ ''_''"
      by (simp add: sanitize_folder_name_def)
    then show ?thesis by (simp add: not_reserved_underscore)
  next
    case nres: False
    with False have eq: "sanitize_folder_name s = s"
      by (simp add: sanitize_folder_name_def)
    show ?thesis
    proof
      assume r: "is_reserved (sanitize_folder_name s)"
      then have rs: "is_reserved s" by (simp only: eq)
      have "upper (takeWhile (\<lambda>c. c \<noteq> CHR ''.'') s) = upper s"
        by (simp only: reserved_takeWhile [OF rs])
      with nres rs show False unfolding is_reserved_def by simp
    qed
  qed
qed

lemma sanitize_reserved:
  assumes "is_reserved s"
  shows "sanitize_folder_name s = s @ ''_''"
proof -
  from assms have "s \<noteq> []" using reserved_shape by (auto simp: is_reserved_def upper_def)
  moreover have "upper (takeWhile (\<lambda>c. c \<noteq> CHR ''.'') s) \<in> set reserved_names"
    using assms unfolding is_reserved_def by (simp only: reserved_takeWhile [OF assms])
  ultimately show ?thesis by (simp add: sanitize_folder_name_def)
qed

lemma detect_folder_name_sanitized:
  assumes "detect_folder_name f = Some r"
  shows "\<exists>c. r = sanitize_folder_name c"
  using assms unfolding detect_folder_name_def Let_def
  by (auto split: option.splits if_splits prod.splits)

lemma extract_img_tag_sanitized:
  assumes "extract_img_tag f = Some r"
  shows "\<exists>c. r = sanitize_folder_name c"
  using assms unfolding extract_img_tag_def by auto

lemma detect_sequential_pattern_sanitized:
  assumes "detect_sequential_pattern f = Some r"
  shows "\<exists>c. r = sanitize_folder_name c"
  using assms unfolding detect_sequential_pattern_def Let_def
  by (auto split: option.splits if_splits)

text \<open>
  Claim C3. \<open>sanitize_folder_name\<close> never returns a name that equals a reserved device
  name up to letter case; a reserved candidate gets exactly one underscore appended;
  and every folder name that \<open>detect_folder_name\<close>, \<open>detect_sequential_pattern\<close> or
  \<open>extract_img_tag\<close> returns is a result of \<open>sanitize_folder_name\<close>, hence not reserved.
\<close>

theorem sanitize_folder_name_never_reserved:
  "\<not> is_reserved (sanitize_folder_name s)
   \<and> (is_reserved s \<longrightarrow> sanitize_folder_name s = s @ ''_'')
   \<and> (\<forall>r. detect_folder_name f = Some r \<longrightarrow>
          (\<exists>c. r = sanitize_folder_name c) \<and> \<not> is_reserved r)
   \<and> (\<forall>r. detect_sequential_pattern f = Some r \<longrightarrow>
          (\<exists>c. r = sanitize_folder_name c) \<and> \<not> is_reserved r)
   \<and> (\<forall>r. extract_img_tag f = Some r \<longrightarrow>
          (\<exists>c. r = sanitize_folder_name c) \<and> \<not> is_reserved r)"
proof (intro conjI allI impI)
  show "\<not> is_reserved (sanitize_folder_name s)" by (rule sanitize_not_reserved)
next
  assume "is_reserved s"
  then show "sanitize_folder_name s = s @ ''_''" by (rule sanitize_reserved)
next
  fix r assume "detect_folder_name f = Some r"
  then show "\<exists>c. r = sanitize_folder_name c" by (rule detect_folder_name_sanitized)
  then show "\<not> is_reserved r" using sanitize_not_reserved by auto
next
  fix r assume "detect_sequential_pattern f = Some r"
  then show "\<exists>c. r = sanitize_folder_name c" by (rule detect_sequential_pattern_sanitized)
  then show "\<not> is_reserved r" using sanitize_not_reserved by auto
next
  fix r assume "extract_img_tag f = Some r"
  then show "\<exists>c. r = sanitize_folder_name c" by (rule extract_img_tag_sanitized)
  then show "\<not> is_reserved r" using sanitize_not_reserved by auto
qed

theorem sanitize_folder_name_never_reserved_witness:
  "is_reserved ''con'' \<and> sanitize_folder_name ''con'' = ''con_''
   \<and> \<not> is_reserved (sanitize_folder_name ''con'')
   \<and> detect_folder_name ''con_x-1.jpg'' = Some ''Con_X'' \<and> \<not> is_reserved ''Con_X''
   \<and> detect_sequential_pattern ''con-12.jpg'' = Some ''Con_'' \<and> \<not> is_reserved ''Con_''
   \<and> extract_img_tag ''IMG_1234.jpg'' = Some ''IMG'' \<and> \<not> is_reserved ''IMG''"
proof -
  have a: "is_reserved ''con''" by code_simp
  have b: "detect_folder_name ''con_x-1.jpg'' = Some ''Con_X''" by code_simp
  have c: "detect_sequential_pattern ''con-12.jpg'' = Some ''Con_''" by code_simp
  have d: "extract_img_tag ''IMG_1234.jpg'' = Some ''IMG''" by code_simp
  note t1 = sanitize_folder_name_never_reserved [where s = "''con''" and f = "''con_x-1.jpg''"]
  note t2 = sanitize_folder_name_never_reserved [where s = "''con''" and f = "''con-12.jpg''"]
  note t3 = sanitize_folder_name_never_reserved [where s = "''con''" and f = "''IMG_1234.jpg''"]
  from t1 a have "sanitize_folder_name ''con'' = ''con_''" by simp
  moreover from t1 have "\<not> is_reserved (sanitize_folder_name ''con'')" by blast
  moreover from t1 b have "\<not> is_reserved ''Con_X''" by blast
  moreover from t2 c have "\<not> is_reserved ''Con_''" by blast
  moreover from t3 d have "\<not> is_reserved ''IMG''" by blast
  ultimately show ?thesis using a b c d by blast
qed

subsection \<open>Casing\<close>

lemma split_on_no_sep: "sep \<notin> set w \<Longrightarrow> split_on sep w = [w]"
  by (induction w) auto

lemma split_on_word:
  "sep \<notin> set w \<Longrightarrow> split_on sep (w @ sep # rest) = w # split_on sep rest"
  by (induction w) auto

lemma split_on_not_Nil: "split_on sep s \<noteq> []"
  by (induction s) (auto split: list.splits)

lemma join_with_Cons:
  "ws \<noteq> [] \<Longrightarrow> join_with sep (w # ws) = w @ sep @ join_with sep ws"
  by (cases ws) auto

lemma smart_title_word:
  assumes "CHR ''_'' \<notin> set w"
  shows "smart_title w = (if isupper w then w else capitalize w)"
  using assms by (simp add: smart_title_def split_on_no_sep)

lemma smart_title_words:
  assumes "CHR ''_'' \<notin> set w"
  shows "smart_title (w @ ''_'' @ rest) =
         (if isupper w then w else capitalize w) @ ''_'' @ smart_title rest"
proof -
  have "split_on CHR ''_'' (w @ ''_'' @ rest) = w # split_on CHR ''_'' rest"
    using split_on_word [OF assms] by simp
  moreover have "map (\<lambda>w. if isupper w then w else capitalize w) (split_on CHR ''_'' rest) \<noteq> []"
    by (simp add: split_on_not_Nil)
  ultimately show ?thesis
    unfolding smart_title_def by (simp add: join_with_Cons)
qed

lemma capitalize_length: "length (capitalize w) = length w"
  by (cases w) (auto simp: lower_def)

lemma capitalize_nth:
  "i < length w \<Longrightarrow> capitalize w ! i = (if i = 0 then upper_c (w ! i) else lower_c (w ! i))"
  by (cases w; cases i) (auto simp: lower_def)

lemma sequential_sep_casing:
  assumes "match_sep_digits (rstrip '' .'' (strip_dup_marker (fst (splitext f)))) = Some b"
  shows "detect_sequential_pattern f =
         Some (sanitize_folder_name (if isupper b then b else capitalize b))"
  using assms by (simp add: detect_sequential_pattern_def)

lemma sequential_nosep_casing:
  assumes "match_sep_digits (rstrip '' .'' (strip_dup_marker (fst (splitext f)))) = None"
    and "match_nosep_digits (rstrip '' .'' (strip_dup_marker (fst (splitext f)))) = Some b"
  shows "detect_sequential_pattern f =
         Some (sanitize_folder_name (if isupper b then b else capitalize b))"
  using assms by (simp add: detect_sequential_pattern_def)

lemma smart_title_with_word:
  assumes "us \<notin> set w"
  shows "smart_title_with us str_isupper str_capitalize w =
         (if str_isupper w then w else str_capitalize w)"
  using assms by (simp add: smart_title_with_def split_on_no_sep)

lemma smart_title_with_words:
  assumes "us \<notin> set w"
  shows "smart_title_with us str_isupper str_capitalize (w @ [us] @ rest) =
         (if str_isupper w then w else str_capitalize w) @ [us]
           @ smart_title_with us str_isupper str_capitalize rest"
proof -
  have "split_on us (w @ [us] @ rest) = w # split_on us rest"
    using split_on_word [OF assms] by simp
  moreover have "map (\<lambda>w. if str_isupper w then w else str_capitalize w) (split_on us rest) \<noteq> []"
    by (simp add: split_on_not_Nil)
  ultimately show ?thesis
    unfolding smart_title_with_def by (simp add: join_with_Cons)
qed

lemma smart_title_ascii: "smart_title t = smart_title_with CHR ''_'' isupper capitalize t"
  by (simp add: smart_title_def smart_title_with_def)

lemma detect_sequential_pattern_ascii:
  "detect_sequential_pattern f =
     sequential_folder_with isupper capitalize sanitize_folder_name
       (match_sep_digits (rstrip '' .'' (strip_dup_marker (fst (splitext f)))))
       (match_nosep_digits (rstrip '' .'' (strip_dup_marker (fst (splitext f)))))
       (match_numeric_base (rstrip '' .'' (strip_dup_marker (fst (splitext f)))))"
  by (simp add: detect_sequential_pattern_def sequential_folder_with_def Let_def)

text \<open>
  Claim C7, as stated: a word that is not entirely uppercase has only its first letter
  changed, so that \<open>fooBAR\<close> becomes \<open>FooBAR\<close>. The code calls \<open>str.capitalize\<close>, which
  also lowercases the rest: \<open>fooBAR\<close> becomes \<open>Foobar\<close>, in \<open>smart_title\<close> and in the
  sequence detector alike.
\<close>

theorem casing_keeps_rest_counterexample:
  "smart_title ''fooBAR'' \<noteq> ''FooBAR'' \<and> smart_title ''fooBAR'' = ''Foobar''
   \<and> detect_sequential_pattern ''fooBAR-12.jpg'' = Some ''Foobar''"
  by code_simp

text \<open>
  Claim C7, amended. Whatever the alphabet and whatever \<open>str.isupper\<close> and
  \<open>str.capitalize\<close> do on it, every underscore-separated word that \<open>smart_title\<close> joins,
  and every base that the sequence detector matches before a separator or directly
  before the digits, is kept as it is when \<open>str.isupper\<close> holds of it and is replaced
  by its \<open>str.capitalize\<close> otherwise. On ASCII text \<open>smart_title\<close> and
  \<open>detect_sequential_pattern\<close> are these functions with the ASCII methods, where
  \<open>capitalize\<close> keeps the length of the word, uppercases its first character and
  lowercases all its other characters: \<open>DSLR\<close> stays \<open>DSLR\<close>, \<open>film\<close> becomes
  \<open>Film\<close> and \<open>fooBAR\<close> becomes \<open>Foobar\<close>.
\<close>

theorem casing_transform:
  "(us \<notin> set word \<longrightarrow>
        smart_title_with us str_isupper str_capitalize word =
        (if str_isupper word then word else str_capitalize word))
   \<and> (us \<notin> set word \<longrightarrow>
        smart_title_with us str_isupper str_capitalize (word @ [us] @ others) =
        (if str_isupper word then word else str_capitalize word) @ [us]
          @ smart_title_with us str_isupper str_capitalize others)
   \<and> sequential_folder_with str_isupper str_capitalize sanitize (Some word) m_no_sep m_numeric =
        Some (sanitize (if str_isupper word then word else str_capitalize word))
   \<and> sequential_folder_with str_isupper str_capitalize sanitize None (Some word) m_numeric =
        Some (sanitize (if str_isupper word then word else str_capitalize word))
   \<and> (is_ascii t \<longrightarrow> smart_title t = smart_title_with CHR ''_'' isupper capitalize t)
   \<and> (is_ascii f \<longrightarrow>
        detect_sequential_pattern f =
        sequential_folder_with isupper capitalize sanitize_folder_name
          (match_sep_digits (rstrip '' .'' (strip_dup_marker (fst (splitext f)))))
          (match_nosep_digits (rstrip '' .'' (strip_dup_marker (fst (splitext f)))))
          (match_numeric_base (rstrip '' .'' (strip_dup_marker (fst (splitext f))))))
   \<and> (is_ascii w \<and> CHR ''_'' \<notin> set w \<longrightarrow>
        smart_title w = (if isupper w then w else capitalize w))
   \<and> (is_ascii (w @ ''_'' @ rest) \<and> CHR ''_'' \<notin> set w \<longrightarrow>
        smart_title (w @ ''_'' @ rest) =
        (if isupper w then w else capitalize w) @ ''_'' @ smart_title rest)
   \<and> (is_ascii f
        \<and> match_sep_digits (rstrip '' .'' (strip_dup_marker (fst (splitext f)))) = Some b \<longrightarrow>
        detect_sequential_pattern f =
        Some (sanitize_folder_name (if isupper b then b else capitalize b)))
   \<and> (is_ascii f
        \<and> match_sep_digits (rstrip '' .'' (strip_dup_marker (fst (splitext f)))) = None
        \<and> match_nosep_digits (rstrip '' .'' (strip_dup_marker (fst (splitext f)))) = Some b \<longrightarrow>
        detect_sequential_pattern f =
        Some (sanitize_folder_name (if isupper b then b else capitalize b)))
   \<and> (is_ascii w \<longrightarrow>
        length (capitalize w) = length w
        \<and> (\<forall>i < length w.
              capitalize w ! i = (if i = 0 then upper_c (w ! i) else lower_c (w ! i))))
   \<and> smart_title ''DSLR'' = ''DSLR'' \<and> smart_title ''film'' = ''Film''
   \<and> smart_title ''fooBAR'' = ''Foobar''"
proof (intro conjI allI impI)
  assume "us \<notin> set word"
  then show "smart_title_with us str_isupper str_capitalize word =
             (if str_isupper word then word else str_capitalize word)"
    by (rule smart_title_with_word)
next
  assume "us \<notin> set word"
  then show "smart_title_with us str_isupper str_capitalize (word @ [us] @ others) =
             (if str_isupper word then word else str_capitalize word) @ [us]
               @ smart_title_with us str_isupper str_capitalize others"
    by (rule smart_title_with_words)
next
  show "sequential_folder_with str_isupper str_capitalize sanitize (Some word) m_no_sep m_numeric =
        Some (sanitize (if str_isupper word then word else str_capitalize word))"
    by (simp add: sequential_folder_with_def)
next
  show "sequential_folder_with str_isupper str_capitalize sanitize None (Some word) m_numeric =
        Some (sanitize (if str_isupper word then word else str_capitalize word))"
    by (simp add: sequential_folder_with_def)
next
  show "smart_title t = smart_title_with CHR ''_'' isupper capitalize t"
    by (rule smart_title_ascii)
next
  show "detect_sequential_pattern f =
        sequential_folder_with isupper capitalize sanitize_folder_name
          (match_sep_digits (rstrip '' .'' (strip_dup_marker (fst (splitext f)))))
          (match_nosep_digits (rstrip '' .'' (strip_dup_marker (fst (splitext f)))))
          (match_numeric_base (rstrip '' .'' (strip_dup_marker (fst (splitext f)))))"
    by (rule detect_sequential_pattern_ascii)
next
  assume "is_ascii w \<and> CHR ''_'' \<notin> set w"
  then show "smart_title w = (if isupper w then w else capitalize w)"
    using smart_title_word by blast
next
  assume "is_ascii (w @ ''_'' @ rest) \<and> CHR ''_'' \<notin> set w"
  then show "smart_title (w @ ''_'' @ rest) =
             (if isupper w then w else capitalize w) @ ''_'' @ smart_title rest"
    using smart_title_words by blast
next
  assume "is_ascii f
          \<and> match_sep_digits (rstrip '' .'' (strip_dup_marker (fst (splitext f)))) = Some b"
  then show "detect_sequential_pattern f =
             Some (sanitize_folder_name (if isupper b then b else capitalize b))"
    using sequential_sep_casing by blast
next
  assume "is_ascii f
          \<and> match_sep_digits (rstrip '' .'' (strip_dup_marker (fst (splitext f)))) = None
          \<and> match_nosep_digits (rstrip '' .'' (strip_dup_marker (fst (splitext f)))) = Some b"
  then show "detect_sequential_pattern f =
             Some (sanitize_folder_name (if isupper b then b else capitalize b))"
    using sequential_nosep_casing by blast
next
  show "length (capitalize w) = length w" by (rule capitalize_length)
next
  fix i assume "i < length w"
  then show "capitalize w ! i = (if i = 0 then upper_c (w ! i) else lower_c (w ! i))"
    by (rule capitalize_nth)
next
  show "smart_title ''DSLR'' = ''DSLR''" by code_simp
next
  show "smart_title ''film'' = ''Film''" by code_simp
next
  show "smart_title ''fooBAR'' = ''Foobar''" by code_simp
qed

theorem casing_transform_witness:
  "CHR ''_'' \<notin> set ''fooBAR''
   \<and> is_ascii ''fooBAR'' \<and> is_ascii (''fooBAR'' @ ''_'' @ ''DSLR'')
   \<and> is_ascii ''fooBAR-12.jpg'' \<and> is_ascii ''fileX01.txt''
   \<and> smart_title_with CHR ''_'' isupper capitalize ''fooBAR'' = ''Foobar''
   \<and> smart_title_with CHR ''_'' isupper capitalize (''fooBAR'' @ ''_'' @ ''DSLR'') = ''Foobar_DSLR''
   \<and> smart_title ''fooBAR'' = ''Foobar''
   \<and> smart_title (''fooBAR'' @ ''_'' @ ''DSLR'') = ''Foobar_DSLR''
   \<and> match_sep_digits (rstrip '' .'' (strip_dup_marker (fst (splitext ''fooBAR-12.jpg''))))
       = Some ''fooBAR''
   \<and> detect_sequential_pattern ''fooBAR-12.jpg'' = Some ''Foobar''
   \<and> match_sep_digits (rstrip '' .'' (strip_dup_marker (fst (splitext ''fileX01.txt'')))) = None
   \<and> match_nosep_digits (rstrip '' .'' (strip_dup_marker (fst (splitext ''fileX01.txt''))))
       = Some ''fileX''
   \<and> detect_sequential_pattern ''fileX01.txt'' = Some ''Filex''
   \<and> length (capitalize ''fooBAR'') = 6
   \<and> (1::nat) < length ''fooBAR'' \<and> capitalize ''fooBAR'' ! 1 = lower_c (''fooBAR'' ! 1)"
proof -
  have h1: "CHR ''_'' \<notin> set ''fooBAR''" by simp
  have a1: "is_ascii ''fooBAR''" by code_simp
  have a2: "is_ascii (''fooBAR'' @ ''_'' @ ''DSLR'')" by code_simp
  have a3: "is_ascii ''fooBAR-12.jpg''" by code_simp
  have a4: "is_ascii ''fileX01.txt''" by code_simp
  have h2: "match_sep_digits (rstrip '' .'' (strip_dup_marker (fst (splitext ''fooBAR-12.jpg''))))
            = Some ''fooBAR''" by code_simp
  have h3: "match_sep_digits (rstrip '' .'' (strip_dup_marker (fst (splitext ''fileX01.txt''))))
            = None" by code_simp
  have h4: "match_nosep_digits (rstrip '' .'' (strip_dup_marker (fst (splitext ''fileX01.txt''))))
            = Some ''fileX''" by code_simp
  have h5: "(1::nat) < length ''fooBAR''" by simp
  note t1 = casing_transform [where us = "CHR ''_''" and str_isupper = isupper
      and str_capitalize = capitalize and word = "''fooBAR''" and others = "''DSLR''"
      and w = "''fooBAR''" and rest = "''DSLR''"
      and f = "''fooBAR-12.jpg''" and b = "''fooBAR''"]
  note t2 = casing_transform [where us = "CHR ''_''" and str_isupper = isupper
      and str_capitalize = capitalize and word = "''fooBAR''" and others = "''DSLR''"
      and w = "''fooBAR''" and rest = "''DSLR''"
      and f = "''fileX01.txt''" and b = "''fileX''"]
  have v1: "(if isupper ''fooBAR'' then ''fooBAR'' else capitalize ''fooBAR'') = ''Foobar''"
    by code_simp
  have v2: "smart_title ''DSLR'' = ''DSLR''" by code_simp
  have v2': "smart_title_with CHR ''_'' isupper capitalize ''DSLR'' = ''DSLR''" by code_simp
  have v3: "sanitize_folder_name ''Foobar'' = ''Foobar''" by code_simp
  have v4: "sanitize_folder_name (if isupper ''fileX'' then ''fileX'' else capitalize ''fileX'')
            = ''Filex''" by code_simp
  from t1 h1 have "smart_title_with CHR ''_'' isupper capitalize ''fooBAR'' =
      (if isupper ''fooBAR'' then ''fooBAR'' else capitalize ''fooBAR'')" by blast
  then have g1: "smart_title_with CHR ''_'' isupper capitalize ''fooBAR'' = ''Foobar''"
    by (simp only: v1)
  from t1 h1 have "smart_title_with CHR ''_'' isupper capitalize (''fooBAR'' @ [CHR ''_''] @ ''DSLR'') =
      (if isupper ''fooBAR'' then ''fooBAR'' else capitalize ''fooBAR'') @ [CHR ''_'']
        @ smart_title_with CHR ''_'' isupper capitalize ''DSLR''" by blast
  then have g2: "smart_title_with CHR ''_'' isupper capitalize (''fooBAR'' @ ''_'' @ ''DSLR'')
                 = ''Foobar_DSLR''"
    by (simp only: v1 v2') simp
  from t1 h1 a1 have "smart_title ''fooBAR'' =
      (if isupper ''fooBAR'' then ''fooBAR'' else capitalize ''fooBAR'')" by blast
  then have c1: "smart_title ''fooBAR'' = ''Foobar''" by (simp only: v1)
  from t1 h1 a2 have "smart_title (''fooBAR'' @ ''_'' @ ''DSLR'') =
      (if isupper ''fooBAR'' then ''fooBAR'' else capitalize ''fooBAR'') @ ''_'' @ smart_title ''DSLR''"
    by blast
  then have c2: "smart_title (''fooBAR'' @ ''_'' @ ''DSLR'') = ''Foobar_DSLR''"
    by (simp only: v1 v2) simp
  from t1 h2 a3 have "detect_sequential_pattern ''fooBAR-12.jpg'' =
      Some (sanitize_folder_name (if isupper ''fooBAR'' then ''fooBAR'' else capitalize ''fooBAR''))"
    by blast
  then have c3: "detect_sequential_pattern ''fooBAR-12.jpg'' = Some ''Foobar''"
    by (simp only: v1 v3)
  from t2 h3 h4 a4 have "detect_sequential_pattern ''fileX01.txt'' =
      Some (sanitize_folder_name (if isupper ''fileX'' then ''fileX'' else capitalize ''fileX''))"
    by blast
  then have c4: "detect_sequential_pattern ''fileX01.txt'' = Some ''Filex''"
    by (simp only: v4)
  from t1 a1 have c6: "length (capitalize ''fooBAR'') = length ''fooBAR''" by blast
  then have c6': "length (capitalize ''fooBAR'') = 6" by simp
  from t1 a1 have "\<forall>i < length ''fooBAR''.
      capitalize ''fooBAR'' ! i = (if i = 0 then upper_c (''fooBAR'' ! i) else lower_c (''fooBAR'' ! i))"
    by blast
  with h5 have c5: "capitalize ''fooBAR'' ! 1 = lower_c (''fooBAR'' ! 1)"
    by auto
  from h1 a1 a2 a3 a4 g1 g2 c1 c2 h2 c3 h3 h4 c4 c6' h5 c5 show ?thesis by blast
qed

subsection \<open>Cross-delimiter tagging\<close>

text \<open>
  Claim C6 says that \<open>name_set_001\<close> and \<open>name_set-002\<close> get the folders \<open>Name_Set\<close> and
  \<open>Name_Set[-]\<close>. In \<open>detect_folder_name\<close> the second substitution has already removed
  the trailing number and the \<open>rstrip\<close> after it the delimiter before that number, so
  the search for the delimiter finds none: both names get \<open>Name_Set\<close>. The tag is
  only reached when another delimited number is left, as in \<open>name_set-1-002\<close>.
\<close>

theorem cross_delimiter_tag_lost:
  "detect_folder_name ''name_set_001'' = Some ''Name_Set''
   \<and> detect_folder_name ''name_set-002'' = Some ''Name_Set''
   \<and> detect_folder_name ''name_set-002'' \<noteq> Some ''Name_Set[-]''
   \<and> detect_folder_name ''name_set-1-002'' = Some ''Name_Set[-]''"
  by code_simp


subsection \<open>The detectors always return\<close>

lemma digits_loop_returns: "\<exists>r. digits_loop base i n = Inr r"
proof (induction base i n rule: digits_loop.induct)
  case (1 base i cnt)
  show ?case
  proof (cases "i < length base \<and> isdigit (base ! i)")
    case True
    then have "digits_loop base i cnt = digits_loop base (i + 1) (cnt + 1)"
      by (simp add: char_at_def)
    moreover from True have "\<exists>r. digits_loop base (i + 1) (cnt + 1) = Inr r"
      by (intro "1.IH") (auto simp: char_at_def)
    ultimately show ?thesis by simp
  next
    case False
    then show ?thesis by (auto simp: char_at_def)
  qed
qed

lemma letters_loop_returns: "\<exists>r. letters_loop base i t = Inr r"
proof (induction base i t rule: letters_loop.induct)
  case (1 base i t)
  show ?case
  proof (cases "i < length base \<and> isalpha (base ! i)")
    case True
    then have "letters_loop base i t = letters_loop base (i + 1) (t @ [base ! i])"
      by (simp add: char_at_def)
    moreover from True have "\<exists>r. letters_loop base (i + 1) (t @ [base ! i]) = Inr r"
      by (intro "1.IH") (auto simp: char_at_def)
    ultimately show ?thesis by simp
  next
    case False
    then show ?thesis by (auto simp: char_at_def)
  qed
qed

lemma sig_loop_returns: "\<exists>r. sig_loop base i acc = Inr r"
proof (induction base i acc rule: sig_loop.induct)
  case (1 base i signature)
  show ?case
  proof (cases "i < length base")
    case False
    then show ?thesis by simp
  next
    case lt: True
    then have c: "char_at base i = Inr (base ! i)" by (simp add: char_at_def)
    show ?thesis
    proof (cases "isdigit (base ! i)")
      case True
      obtain i' cnt where r: "digits_loop base i 0 = Inr (i', cnt)"
        using digits_loop_returns [of base i 0] by (cases "digits_loop base i 0") auto
      have "\<exists>r. sig_loop base i' (signature @ [replicate cnt CHR ''N'']) = Inr r"
        using "1.IH"(1) [OF lt c True r refl] .
      moreover have "sig_loop base i signature = sig_loop base i' (signature @ [replicate cnt CHR ''N''])"
        using lt c True r by (subst sig_loop.simps) simp
      ultimately show ?thesis by simp
    next
      case nd: False
      show ?thesis
      proof (cases "isalpha (base ! i)")
        case True
        obtain i' t where r: "letters_loop base i [] = Inr (i', t)"
          using letters_loop_returns [of base i "[]"] by (cases "letters_loop base i []") auto
        let ?part = "if isupper t \<and> length t \<le> 5 then t else ''TEXT''"
        have "\<exists>r. sig_loop base i' (signature @ [?part]) = Inr r"
          using "1.IH"(2) [OF lt c nd True r refl] .
        moreover have "sig_loop base i signature = sig_loop base i' (signature @ [?part])"
          using lt c nd True r by (subst sig_loop.simps) simp
        ultimately show ?thesis by simp
      next
        case False
        have "\<exists>r. sig_loop base (i + 1) (signature @ [[base ! i]]) = Inr r"
          using "1.IH"(3) [OF lt c nd False] .
        moreover have "sig_loop base i signature = sig_loop base (i + 1) (signature @ [[base ! i]])"
          using lt c nd False by (subst sig_loop.simps) simp
        ultimately show ?thesis by simp
      qed
    qed
  qed
qed

lemma extract_signature_returns: "\<exists>sig. extract_signature f = Inr sig"
  using sig_loop_returns [of "fst (splitext f)" 0 "[]"]
  by (auto simp: extract_signature_def)

lemma predict_returns: "\<exists>r. predict pats f = Inr r"
  using extract_signature_returns [of f]
  by (auto simp: predict_def split: option.splits)

lemma detect_returns: "\<exists>r. detect pats f = Inr r"
proof -
  obtain p where p: "predict pats f = Inr p" using predict_returns by blast
  show ?thesis
  proof (cases p)
    case None
    have "detect pats f \<noteq> Inl e" for e
      using p None by (simp add: detect_def Let_def)
    then show ?thesis by (cases "detect pats f") auto
  next
    case (Some fc)
    with p show ?thesis by (cases fc) (simp add: detect_def)
  qed
qed

lemma sanitize_Nil_iff: "sanitize_folder_name s = [] \<longleftrightarrow> s = []"
  by (simp add: sanitize_folder_name_def Let_def)

lemma rstrip_nonempty: "c \<in> set s \<Longrightarrow> c \<notin> set chars \<Longrightarrow> rstrip chars s \<noteq> []"
  by (auto simp: rstrip_def dropWhile_eq_Nil_conv)

lemma split_on_length: "sep \<in> set s \<Longrightarrow> 2 \<le> length (split_on sep s)"
proof (induction s)
  case Nil
  then show ?case by simp
next
  case (Cons c cs)
  show ?case
  proof (cases "c = sep")
    case True
    then show ?thesis using split_on_not_Nil [of sep cs] by (cases "split_on sep cs") auto
  next
    case False
    with Cons show ?thesis by (auto split: list.splits)
  qed
qed

lemma join_with_has_sep: "2 \<le> length ws \<Longrightarrow> set sep \<subseteq> set (join_with sep ws)"
proof -
  assume "2 \<le> length ws"
  then obtain w1 w2 rest where "ws = w1 # w2 # rest"
    by (cases ws; cases "tl ws") auto
  then show ?thesis by auto
qed

lemma smart_title_has_underscore:
  assumes "CHR ''_'' \<in> set pre"
  shows "CHR ''_'' \<in> set (smart_title pre)"
proof -
  have "2 \<le> length (map (\<lambda>w. if isupper w then w else capitalize w) (split_on CHR ''_'' pre))"
    using split_on_length [OF assms] by simp
  from join_with_has_sep [OF this, of "''_''"] show ?thesis
    by (simp add: smart_title_def)
qed

lemma hyphen_title_has_hyphen:
  assumes "CHR ''-'' \<in> set pre"
  shows "CHR ''-'' \<in> set (hyphen_title pre)"
proof -
  have "2 \<le> length (map capitalize (split_on CHR ''-'' pre))"
    using split_on_length [OF assms] by simp
  from join_with_has_sep [OF this, of "''-''"] show ?thesis
    by (simp add: hyphen_title_def)
qed

lemma smart_title_rstrip:
  "CHR ''_'' \<in> set pre \<Longrightarrow> rstrip '' .'' (smart_title pre @ sfx) \<noteq> []"
  by (rule rstrip_nonempty [of "CHR ''_''"]) (simp_all add: smart_title_has_underscore)

lemma hyphen_title_rstrip:
  "CHR ''-'' \<in> set pre \<Longrightarrow> rstrip '' .'' (hyphen_title pre @ sfx) \<noteq> []"
  by (rule rstrip_nonempty [of "CHR ''-''"]) (simp_all add: hyphen_title_has_hyphen)

lemma upper_c_letter:
  assumes "isalpha c"
  shows "upper_c c \<notin> set '' .''"
proof -
  have n1: "\<not> isalpha (CHR '' '')" and n2: "\<not> isalpha (CHR ''.'')"
    by (simp_all add: isalpha_def isupper_c_def islower_c_def uppers_def lowers_def)
  have u: "CHR '' '' \<notin> set uppers \<and> CHR ''.'' \<notin> set uppers"
    by (simp add: uppers_def)
  from upper_c_cases [of c] show ?thesis
  proof
    assume "upper_c c = c"
    with assms n1 n2 show ?thesis by auto
  next
    assume "upper_c c \<in> set uppers"
    with u show ?thesis by auto
  qed
qed

lemma letters_capitalize_rstrip:
  assumes "match_letters_digits pre = Some ls"
  shows "rstrip '' .'' (capitalize ls) \<noteq> []"
proof -
  from assms have ne: "ls \<noteq> []" and ls: "ls = takeWhile isalpha (chop_nl pre)"
    by (auto simp: match_letters_digits_def Let_def split: if_splits)
  from ne obtain c cs where cc: "ls = c # cs" by (cases ls) auto
  have "c \<in> set ls" by (simp add: cc)
  then have "c \<in> set (takeWhile isalpha (chop_nl pre))" by (simp only: ls [symmetric])
  then have "isalpha c" by (rule set_takeWhileD [THEN conjunct2])
  from upper_c_letter [OF this] have "upper_c c \<notin> set '' .''" .
  moreover have "upper_c c \<in> set (capitalize ls)" by (simp add: cc)
  ultimately show ?thesis by (rule rstrip_nonempty [rotated])
qed

lemma detect_folder_name_nonempty:
  assumes "detect_folder_name f = Some r"
  shows "r \<noteq> []"
  using assms unfolding detect_folder_name_def Let_def
  by (auto split: option.splits if_splits prod.splits
      simp: sanitize_Nil_iff smart_title_rstrip hyphen_title_rstrip letters_capitalize_rstrip
            smart_title_rstrip [where sfx = "[]", simplified] hyphen_title_rstrip [where sfx = "[]", simplified])

lemma capitalize_Nil_iff: "capitalize s = [] \<longleftrightarrow> s = []"
  by (cases s) auto

lemma match_sep_digits_nonempty: "match_sep_digits b = Some g \<Longrightarrow> g \<noteq> []"
  by (auto simp: match_sep_digits_def Let_def split: list.splits if_splits)

lemma match_nosep_digits_nonempty: "match_nosep_digits b = Some g \<Longrightarrow> g \<noteq> []"
  by (auto simp: match_nosep_digits_def Let_def split: list.splits if_splits)

lemma match_numeric_base_nonempty: "match_numeric_base b = Some g \<Longrightarrow> g \<noteq> []"
  by (auto simp: match_numeric_base_def Let_def split: list.splits if_splits)

lemma detect_sequential_pattern_nonempty:
  assumes "detect_sequential_pattern f = Some r"
  shows "r \<noteq> []"
  using assms unfolding detect_sequential_pattern_def Let_def
  by (auto split: option.splits if_splits
      simp: sanitize_Nil_iff capitalize_Nil_iff
      dest: match_sep_digits_nonempty match_nosep_digits_nonempty match_numeric_base_nonempty)

lemma search_img_tag_tag:
  "search_img_tag s = Some t \<Longrightarrow> t \<in> set camera_tags"
proof (induction s)
  case Nil
  then show ?case by simp
next
  case (Cons c cs)
  show ?case
  proof (cases "find (tag_at (c # cs)) camera_tags")
    case None
    with Cons show ?thesis by simp
  next
    case (Some u)
    then have "u \<in> set camera_tags" and "tag_at (c # cs) u"
      by (auto simp: find_Some_iff)
    moreover from Some Cons.prems have "t = upper (take (length u) (c # cs))" by simp
    ultimately show ?thesis by (simp add: tag_at_def)
  qed
qed

lemma camera_tags_sanitized: "t \<in> set camera_tags \<Longrightarrow> sanitize_folder_name t = t"
  unfolding camera_tags_def by (auto simp: sanitize_folder_name_def Let_def upper_def upper_c_def lowers_def uppers_def reserved_names_def)

lemma extract_img_tag_tag:
  assumes "extract_img_tag f = Some r"
  shows "r \<in> set camera_tags"
  using assms search_img_tag_tag camera_tags_sanitized
  by (auto simp: extract_img_tag_def)

lemma extract_img_tag_nonempty:
  assumes "extract_img_tag f = Some r"
  shows "r \<noteq> []"
  using extract_img_tag_tag [OF assms] by (auto simp: camera_tags_def)


lemma detect_shape_intro:
  assumes "detect pats f = Inr (fo, c, m)" and "(fo = None) \<longleftrightarrow> (m = ''No Pattern'')"
  shows "\<exists>folder conf method. detect pats f = Inr (folder, conf, method)
         \<and> (folder = None \<longleftrightarrow> method = ''No Pattern'')"
  using assms by (intro exI conjI)

text \<open>
  Claim C9. The detection functions come back with a value for every file name and never
  raise: \<open>extract_signature\<close>, whose loops index the string, never reads past its end,
  so \<open>predict\<close> and \<open>detect\<close> return as well; \<open>detect\<close> gives no folder exactly with the
  method \<open>No Pattern\<close>; the three helpers return either nothing or a non-empty folder
  name. The empty name, names of punctuation only and a name without extension are
  among the inputs.
\<close>

theorem detectors_total:
  "(\<exists>sig. extract_signature f = Inr sig)
   \<and> (\<exists>r. predict pats f = Inr r)
   \<and> (\<exists>folder conf method. detect pats f = Inr (folder, conf, method)
         \<and> (folder = None \<longleftrightarrow> method = ''No Pattern''))
   \<and> (detect_folder_name f = None \<or> (\<exists>r. detect_folder_name f = Some r \<and> r \<noteq> []))
   \<and> (detect_sequential_pattern f = None
        \<or> (\<exists>r. detect_sequential_pattern f = Some r \<and> r \<noteq> []))
   \<and> (extract_img_tag f = None \<or> (\<exists>r. extract_img_tag f = Some r \<and> r \<in> set camera_tags))
   \<and> extract_signature [] = Inr []
   \<and> detect Map.empty [] = Inr (None, 0, ''No Pattern'')
   \<and> detect Map.empty ''...'' = Inr (None, 0, ''No Pattern'')
   \<and> detect Map.empty ''-_-'' = Inr (None, 0, ''No Pattern'')
   \<and> detect Map.empty ''README'' = Inr (None, 0, ''No Pattern'')"
proof (intro conjI)
  show "\<exists>sig. extract_signature f = Inr sig" by (rule extract_signature_returns)
  show "\<exists>r. predict pats f = Inr r" by (rule predict_returns)
  show "\<exists>folder conf method. detect pats f = Inr (folder, conf, method)
         \<and> (folder = None \<longleftrightarrow> method = ''No Pattern'')"
  proof -
    obtain p where p: "predict pats f = Inr p" using predict_returns by blast
    show ?thesis
    proof (cases p)
      case (Some fc)
      obtain lf lc where fc: "fc = (lf, lc)" by (cases fc)
      have "detect pats f = Inr (Some lf, lc, ''Learned Pattern'')"
        using p Some fc by (simp add: detect_def)
      moreover have "(Some lf = None) \<longleftrightarrow> (''Learned Pattern'' = ''No Pattern'')" by simp
      ultimately show ?thesis by (rule detect_shape_intro)
    next
      case None
      show ?thesis
      proof (cases "truthy (extract_img_tag f)")
        case True
        then have "extract_img_tag f \<noteq> None" by (auto simp: truthy_def split: option.splits)
        then have "(extract_img_tag f = None) \<longleftrightarrow> (''Camera Tag'' = ''No Pattern'')" by simp
        moreover have "detect pats f = Inr (extract_img_tag f, 95 / 100, ''Camera Tag'')"
          using p None True by (simp add: detect_def)
        ultimately show ?thesis by (rule detect_shape_intro [rotated])
      next
        case c: False
        show ?thesis
        proof (cases "truthy (detect_sequential_pattern f)")
          case True
          then have "detect_sequential_pattern f \<noteq> None" by (auto simp: truthy_def split: option.splits)
          then have "(detect_sequential_pattern f = None) \<longleftrightarrow> (''Sequential Pattern'' = ''No Pattern'')"
            by simp
          moreover have "detect pats f = Inr (detect_sequential_pattern f, 90 / 100, ''Sequential Pattern'')"
            using p None c True by (simp add: detect_def)
          ultimately show ?thesis by (rule detect_shape_intro [rotated])
        next
          case s: False
          show ?thesis
          proof (cases "truthy (detect_folder_name f)")
            case True
            then have "detect_folder_name f \<noteq> None" by (auto simp: truthy_def split: option.splits)
            then have "(detect_folder_name f = None) \<longleftrightarrow> (''Smart Pattern'' = ''No Pattern'')"
              by simp
            moreover have "detect pats f = Inr (detect_folder_name f, 80 / 100, ''Smart Pattern'')"
              using p None c s True by (simp add: detect_def)
            ultimately show ?thesis by (rule detect_shape_intro [rotated])
          next
            case False
            with p None c s have "detect pats f = Inr (None, 0, ''No Pattern'')"
              by (simp add: detect_def)
            then show ?thesis by (rule detect_shape_intro) simp
          qed
        qed
      qed
    qed
  qed
  show "detect_folder_name f = None \<or> (\<exists>r. detect_folder_name f = Some r \<and> r \<noteq> [])"
    using detect_folder_name_nonempty by (cases "detect_folder_name f") auto
  show "detect_sequential_pattern f = None
        \<or> (\<exists>r. detect_sequential_pattern f = Some r \<and> r \<noteq> [])"
    using detect_sequential_pattern_nonempty by (cases "detect_sequential_pattern f") auto
  show "extract_img_tag f = None \<or> (\<exists>r. extract_img_tag f = Some r \<and> r \<in> set camera_tags)"
    using extract_img_tag_tag by (cases "extract_img_tag f") auto
  show "extract_signature [] = Inr []" by code_simp
  show "detect Map.empty [] = Inr (None, 0, ''No Pattern'')" by code_simp
  show "detect Map.empty ''...'' = Inr (None, 0, ''No Pattern'')" by code_simp
  show "detect Map.empty ''-_-'' = Inr (None, 0, ''No Pattern'')" by code_simp
  show "detect Map.empty ''README'' = Inr (None, 0, ''No Pattern'')" by code_simp
qed

lemma truthy_Some: "truthy (Some s) \<longleftrightarrow> s \<noteq> []"
  by (simp add: truthy_def)

lemma truthy_None: "\<not> truthy None"
  by (simp add: truthy_def)

lemma predict_miss:
  assumes "extract_signature f = Inr sig" and "pats sig = None"
  shows "predict pats f = Inr None"
  using assms by (simp add: predict_def)

text \<open>
  Claim C2. \<open>detect\<close> asks the learned patterns first and returns their folder and
  confidence; without a learned pattern a camera tag gives confidence 0.95; without
  that a sequential pattern gives 0.90; without that a smart delimiter pattern gives 0.80;
  and otherwise the result is no folder, confidence 0 and the method \<open>No Pattern\<close>.
  For \<open>IMG_1234.jpg\<close> with no learned pattern for its signature the result is the
  folder \<open>IMG\<close> with confidence 0.95 by the camera tag, although the sequence detector
  on its own finds \<open>IMG\<close> as well.
\<close>

theorem detect_priority:
  "(\<forall>folder conf. predict pats f = Inr (Some (folder, conf)) \<longrightarrow>
        detect pats f = Inr (Some folder, conf, ''Learned Pattern''))
   \<and> (\<forall>t. predict pats f = Inr None \<and> extract_img_tag f = Some t \<longrightarrow>
        detect pats f = Inr (Some t, 95 / 100, ''Camera Tag''))
   \<and> (\<forall>s. predict pats f = Inr None \<and> extract_img_tag f = None
          \<and> detect_sequential_pattern f = Some s \<longrightarrow>
        detect pats f = Inr (Some s, 90 / 100, ''Sequential Pattern''))
   \<and> (\<forall>s. predict pats f = Inr None \<and> extract_img_tag f = None
          \<and> detect_sequential_pattern f = None \<and> detect_folder_name f = Some s \<longrightarrow>
        detect pats f = Inr (Some s, 80 / 100, ''Smart Pattern''))
   \<and> (predict pats f = Inr None \<and> extract_img_tag f = None
          \<and> detect_sequential_pattern f = None \<and> detect_folder_name f = None \<longrightarrow>
        detect pats f = Inr (None, 0, ''No Pattern''))
   \<and> (\<forall>sig. extract_signature ''IMG_1234.jpg'' = Inr sig \<and> pats sig = None \<longrightarrow>
        detect pats ''IMG_1234.jpg'' = Inr (Some ''IMG'', 95 / 100, ''Camera Tag''))
   \<and> detect_sequential_pattern ''IMG_1234.jpg'' = Some ''IMG''"
proof (intro conjI allI impI)
  fix folder conf
  assume "predict pats f = Inr (Some (folder, conf))"
  then show "detect pats f = Inr (Some folder, conf, ''Learned Pattern'')"
    by (simp add: detect_def)
next
  fix t
  assume a: "predict pats f = Inr None \<and> extract_img_tag f = Some t"
  then have "t \<noteq> []" using extract_img_tag_nonempty by blast
  with a show "detect pats f = Inr (Some t, 95 / 100, ''Camera Tag'')"
    by (simp add: detect_def truthy_def)
next
  fix s
  assume a: "predict pats f = Inr None \<and> extract_img_tag f = None
             \<and> detect_sequential_pattern f = Some s"
  then have "s \<noteq> []" using detect_sequential_pattern_nonempty by blast
  with a show "detect pats f = Inr (Some s, 90 / 100, ''Sequential Pattern'')"
    by (simp add: detect_def truthy_def)
next
  fix s
  assume a: "predict pats f = Inr None \<and> extract_img_tag f = None
             \<and> detect_sequential_pattern f = None \<and> detect_folder_name f = Some s"
  then have "s \<noteq> []" using detect_folder_name_nonempty by blast
  with a show "detect pats f = Inr (Some s, 80 / 100, ''Smart Pattern'')"
    by (simp add: detect_def truthy_def)
next
  assume "predict pats f = Inr None \<and> extract_img_tag f = None
          \<and> detect_sequential_pattern f = None \<and> detect_folder_name f = None"
  then show "detect pats f = Inr (None, 0, ''No Pattern'')"
    by (simp add: detect_def truthy_def)
next
  fix sig
  assume a: "extract_signature ''IMG_1234.jpg'' = Inr sig \<and> pats sig = None"
  then have "predict pats ''IMG_1234.jpg'' = Inr None" using predict_miss by blast
  moreover have "extract_img_tag ''IMG_1234.jpg'' = Some ''IMG''" by code_simp
  ultimately show "detect pats ''IMG_1234.jpg'' = Inr (Some ''IMG'', 95 / 100, ''Camera Tag'')"
    by (simp add: detect_def truthy_def)
next
  show "detect_sequential_pattern ''IMG_1234.jpg'' = Some ''IMG''" by code_simp
qed

theorem detect_priority_witness:
  "predict (Map.empty(''IMG_NNNN'' \<mapsto> \<lparr>pat_folder = ''Cam'', pat_count = 2, pat_examples = None\<rparr>))
       ''IMG_1234.jpg'' = Inr (Some (''Cam'', 3873095679538627 / 4503599627370496))
   \<and> detect (Map.empty(''IMG_NNNN'' \<mapsto> \<lparr>pat_folder = ''Cam'', pat_count = 2, pat_examples = None\<rparr>))
       ''IMG_1234.jpg'' = Inr (Some ''Cam'', 3873095679538627 / 4503599627370496, ''Learned Pattern'')
   \<and> extract_signature ''IMG_1234.jpg'' = Inr ''IMG_NNNN''
   \<and> detect Map.empty ''IMG_1234.jpg'' = Inr (Some ''IMG'', 95 / 100, ''Camera Tag'')
   \<and> detect Map.empty ''DSC_0042.jpg'' = Inr (Some ''DSC'', 95 / 100, ''Camera Tag'')
   \<and> detect Map.empty ''vacation-001.jpg'' = Inr (Some ''Vacation'', 90 / 100, ''Sequential Pattern'')
   \<and> detect Map.empty ''a_b.jpg'' = Inr (Some ''A_B'', 80 / 100, ''Smart Pattern'')
   \<and> detect Map.empty ''readme'' = Inr (None, 0, ''No Pattern'')"
proof -
  let ?learned = "Map.empty(''IMG_NNNN'' \<mapsto> \<lparr>pat_folder = ''Cam'', pat_count = 2, pat_examples = None\<rparr>)"
  have sig: "extract_signature ''IMG_1234.jpg'' = Inr ''IMG_NNNN''" by code_simp
  have p1: "predict ?learned ''IMG_1234.jpg'' = Inr (Some (''Cam'', 3873095679538627 / 4503599627370496))"
    by code_simp
  have e: "(Map.empty :: patterns) ''IMG_NNNN'' = None" by simp
  have p2: "predict Map.empty ''DSC_0042.jpg'' = Inr None" by code_simp
  have i2: "extract_img_tag ''DSC_0042.jpg'' = Some ''DSC''" by code_simp
  have p3: "predict Map.empty ''vacation-001.jpg'' = Inr None" by code_simp
  have i3: "extract_img_tag ''vacation-001.jpg'' = None" by code_simp
  have s3: "detect_sequential_pattern ''vacation-001.jpg'' = Some ''Vacation''" by code_simp
  have p4: "predict Map.empty ''a_b.jpg'' = Inr None" by code_simp
  have i4: "extract_img_tag ''a_b.jpg'' = None" by code_simp
  have s4: "detect_sequential_pattern ''a_b.jpg'' = None" by code_simp
  have d4: "detect_folder_name ''a_b.jpg'' = Some ''A_B''" by code_simp
  have p5: "predict Map.empty ''readme'' = Inr None" by code_simp
  have i5: "extract_img_tag ''readme'' = None" by code_simp
  have s5: "detect_sequential_pattern ''readme'' = None" by code_simp
  have d5: "detect_folder_name ''readme'' = None" by code_simp
  from detect_priority [where pats = ?learned and f = "''IMG_1234.jpg''"] p1
  have c1: "detect ?learned ''IMG_1234.jpg'' = Inr (Some ''Cam'', 3873095679538627 / 4503599627370496, ''Learned Pattern'')"
    by blast
  from detect_priority [where pats = Map.empty and f = "''readme''"] sig e
  have c2: "detect Map.empty ''IMG_1234.jpg'' = Inr (Some ''IMG'', 95 / 100, ''Camera Tag'')"
    by blast
  from detect_priority [where pats = Map.empty and f = "''DSC_0042.jpg''"] p2 i2
  have c2': "detect Map.empty ''DSC_0042.jpg'' = Inr (Some ''DSC'', 95 / 100, ''Camera Tag'')"
    by blast
  from detect_priority [where pats = Map.empty and f = "''vacation-001.jpg''"] p3 i3 s3
  have c3: "detect Map.empty ''vacation-001.jpg'' = Inr (Some ''Vacation'', 90 / 100, ''Sequential Pattern'')"
    by blast
  from detect_priority [where pats = Map.empty and f = "''a_b.jpg''"] p4 i4 s4 d4
  have c4: "detect Map.empty ''a_b.jpg'' = Inr (Some ''A_B'', 80 / 100, ''Smart Pattern'')"
    by blast
  from detect_priority [where pats = Map.empty and f = "''readme''"] p5 i5 s5 d5
  have c5: "detect Map.empty ''readme'' = Inr (None, 0, ''No Pattern'')"
    by blast
  from p1 c1 sig c2 c2' c3 c4 c5 show ?thesis by blast
qed



subsection \<open>Float rounding\<close>

lemma pow2_powi: "pow2 e = 2 powi e"
  by (simp add: pow2_def power_int_def inverse_eq_divide power_one_over)

lemma pow2_pos: "0 < pow2 e"
  by (simp add: pow2_powi)

lemma pow2_diff: "pow2 (a - b) = pow2 a / pow2 b"
  by (simp add: pow2_powi power_int_diff)

lemma pow2_nat: "0 \<le> e \<Longrightarrow> pow2 e = 2 ^ nat e"
  by (simp add: pow2_def)

lemma ilog2_le:
  assumes "0 < x"
  shows "pow2 (ilog2 x) \<le> x"
proof -
  obtain p q where pq: "quotient_of x = (p, q)" by (cases "quotient_of x")
  then have q: "0 < q" and x: "x = of_int p / of_int q"
    by (auto dest: quotient_of_denom_pos quotient_of_div)
  with assms have p: "0 < p" by (simp add: zero_less_divide_iff)
  let ?e0 = "bitlen p - bitlen q"
  show ?thesis
  proof (cases "pow2 ?e0 \<le> x")
    case True
    then show ?thesis by (simp add: ilog2_def pq)
  next
    case False
    then have e: "ilog2 x = bitlen p - 1 - bitlen q" by (simp add: ilog2_def pq)
    from bitlen_bounds [OF p] have "2 ^ nat (bitlen p - 1) \<le> p" by simp
    then have "(2::rat) ^ nat (bitlen p - 1) \<le> of_int p"
      by (metis of_int_le_iff of_int_numeral of_int_power)
    moreover have "0 \<le> bitlen p - 1" using p by (simp add: bitlen_alt_def)
    ultimately have lo: "pow2 (bitlen p - 1) \<le> of_int p" by (simp add: pow2_nat)
    from bitlen_bounds [OF q] have "q < 2 ^ nat (bitlen q)" by simp
    then have "of_int q < (2::rat) ^ nat (bitlen q)"
      by (metis of_int_less_iff of_int_numeral of_int_power)
    moreover have "0 \<le> bitlen q" by (rule bitlen_nonneg)
    ultimately have hi: "of_int q \<le> pow2 (bitlen q)" by (simp add: pow2_nat)
    have "pow2 (bitlen p - 1) / pow2 (bitlen q) \<le> of_int p / of_int q"
      using lo hi q pow2_pos [of "bitlen p - 1"] by (intro frac_le) auto
    moreover have "pow2 (ilog2 x) = pow2 (bitlen p - 1) / pow2 (bitlen q)"
      by (simp only: e pow2_diff)
    ultimately show ?thesis by (simp only: x [symmetric])
  qed
qed

lemma round_half_even_error: "\<bar>of_int (round_half_even m) - m\<bar> \<le> 1 / 2"
proof -
  have "of_int \<lfloor>m\<rfloor> \<le> m" and "m < of_int \<lfloor>m\<rfloor> + 1" by linarith+
  then show ?thesis unfolding round_half_even_def Let_def by (auto simp: abs_le_iff)
qed

lemma round_double_error:
  assumes "0 < x"
  shows "\<bar>round_double x - x\<bar> \<le> x / 2 ^ 53"
proof -
  let ?ulp = "pow2 (ilog2 x - 52)"
  let ?m = "x / ?ulp"
  have up: "0 < ?ulp" by (rule pow2_pos)
  have rd: "round_double x = of_int (round_half_even ?m) * ?ulp"
    using assms by (simp add: round_double_def Let_def)
  have "round_double x - x = (of_int (round_half_even ?m) - ?m) * ?ulp"
    using up by (simp add: rd algebra_simps)
  then have "\<bar>round_double x - x\<bar> = \<bar>of_int (round_half_even ?m) - ?m\<bar> * ?ulp"
    using up by (simp add: abs_mult)
  also have "\<dots> \<le> (1 / 2) * ?ulp"
    using round_half_even_error [of ?m] up by (intro mult_right_mono) auto
  also have "\<dots> = pow2 (ilog2 x) / 2 ^ 53"
    by (simp add: pow2_powi power_int_diff)
  also have "\<dots> \<le> x / 2 ^ 53"
    using ilog2_le [OF assms] by (simp add: divide_right_mono)
  finally show ?thesis .
qed


lemma round_double_lower:
  assumes "0 < x"
  shows "x * (999 / 1000) \<le> round_double x"
proof -
  have "x - round_double x \<le> \<bar>x - round_double x\<bar>" by (rule abs_ge_self)
  also have "\<dots> = \<bar>round_double x - x\<bar>" by (rule abs_minus_commute)
  also have "\<dots> \<le> x / 2 ^ 53" by (rule round_double_error [OF assms])
  also have "\<dots> \<le> x * (1 / 1000)" using assms by simp
  finally show ?thesis by (simp add: algebra_simps)
qed

lemma float_lit_values:
  "float_lit (80 / 100) = 3602879701896397 / 4503599627370496"
  "float_lit (3 / 100) = 1080863910568919 / 36028797018963968"
  "float_lit (99 / 100) = 4458563631096791 / 4503599627370496"
  by (code_simp, code_simp, code_simp)

lemma confidence_lower:
  assumes "k \<le> of_int n" and "1 \<le> k"
  shows "(7999 / 10000 + k * (298 / 10000)) * (999 / 1000)
         \<le> float_add (float_lit (80 / 100)) (float_mul (float_of_int n) (float_lit (3 / 100)))"
proof -
  have n: "(0::rat) < of_int n" using assms by simp
  have fn: "k * (999 / 1000) \<le> float_of_int n"
  proof -
    have "k * (999 / 1000) \<le> of_int n * (999 / 1000)" using assms by simp
    also have "\<dots> \<le> float_of_int n"
      unfolding float_of_int_def by (rule round_double_lower [OF n])
    finally show ?thesis .
  qed
  have fn0: "0 \<le> float_of_int n" using fn assms by (simp add: order_trans [rotated])
  have d3: "299 / 10000 \<le> float_lit (3 / 100)" unfolding float_lit_values by simp
  have "k * (999 / 1000) * (299 / 10000) \<le> float_of_int n * float_lit (3 / 100)"
    using fn d3 assms by (intro mult_mono) auto
  moreover have "k * (2985 / 100000) \<le> k * (999 / 1000) * (299 / 10000)"
    using assms by simp
  ultimately have prod: "k * (2985 / 100000) \<le> float_of_int n * float_lit (3 / 100)"
    by (rule order_trans [rotated])
  then have ppos: "0 < float_of_int n * float_lit (3 / 100)"
    using assms by (simp add: less_le_trans [rotated])
  have "k * (298 / 10000) \<le> k * (2985 / 100000) * (999 / 1000)" using assms by simp
  also have "\<dots> \<le> float_of_int n * float_lit (3 / 100) * (999 / 1000)"
    using prod by simp
  also have "\<dots> \<le> float_mul (float_of_int n) (float_lit (3 / 100))"
    unfolding float_mul_def by (rule round_double_lower [OF ppos])
  finally have fm: "k * (298 / 10000) \<le> float_mul (float_of_int n) (float_lit (3 / 100))" .
  have d8: "7999 / 10000 \<le> float_lit (80 / 100)" unfolding float_lit_values by simp
  let ?s = "float_lit (80 / 100) + float_mul (float_of_int n) (float_lit (3 / 100))"
  from fm d8 have s: "7999 / 10000 + k * (298 / 10000) \<le> ?s" by simp
  with assms have spos: "0 < ?s" by (simp add: less_le_trans [rotated] add_pos_pos)
  have "(7999 / 10000 + k * (298 / 10000)) * (999 / 1000) \<le> ?s * (999 / 1000)"
    using s by simp
  also have "\<dots> \<le> float_add (float_lit (80 / 100)) (float_mul (float_of_int n) (float_lit (3 / 100)))"
    unfolding float_add_def by (rule round_double_lower [OF spos])
  finally show ?thesis .
qed

lemma confidence_bounds:
  fixes n :: int
  defines "c \<equiv> min (float_lit (99 / 100))
                   (float_add (float_lit (80 / 100)) (float_mul (float_of_int n) (float_lit (3 / 100))))"
  shows "c \<le> float_lit (99 / 100)" and "c < 1"
    and "1 \<le> n \<Longrightarrow> 82 / 100 < c"
    and "7 \<le> n \<Longrightarrow> c = float_lit (99 / 100)"
    and "n = 1 \<Longrightarrow> c = 467248461339689 / 562949953421312"
proof -
  show le: "c \<le> float_lit (99 / 100)" unfolding c_def by (rule min.cobounded1)
  have "float_lit (99 / 100) < 1" unfolding float_lit_values by simp
  with le show "c < 1" by (rule le_less_trans)
  show "1 \<le> n \<Longrightarrow> 82 / 100 < c"
  proof -
    assume "1 \<le> n"
    then have "(1::rat) \<le> of_int n" by simp
    have "(82 / 100 :: rat) < (7999 / 10000 + 1 * (298 / 10000)) * (999 / 1000)" by simp
    also note confidence_lower [OF \<open>1 \<le> of_int n\<close> order_refl]
    finally have "82 / 100
        < float_add (float_lit (80 / 100)) (float_mul (float_of_int n) (float_lit (3 / 100)))" .
    moreover have "82 / 100 < float_lit (99 / 100)" unfolding float_lit_values by simp
    ultimately show ?thesis unfolding c_def by (simp only: min_less_iff_conj)
  qed
  show "7 \<le> n \<Longrightarrow> c = float_lit (99 / 100)"
  proof -
    assume "7 \<le> n"
    then have "(7::rat) \<le> of_int n" by simp
    have "float_lit (99 / 100) \<le> (7999 / 10000 + 7 * (298 / 10000)) * (999 / 1000)"
      unfolding float_lit_values by simp
    also have "\<dots> \<le> float_add (float_lit (80 / 100))
                        (float_mul (float_of_int n) (float_lit (3 / 100)))"
      by (rule confidence_lower [OF \<open>7 \<le> of_int n\<close>]) simp
    finally show ?thesis unfolding c_def by (rule min.absorb1)
  qed
  show "n = 1 \<Longrightarrow> c = 467248461339689 / 562949953421312"
  proof -
    assume n: "n = 1"
    have "min (float_lit (99 / 100))
            (float_add (float_lit (80 / 100)) (float_mul (float_of_int 1) (float_lit (3 / 100))))
          = 467248461339689 / 562949953421312"
      by code_simp
    then show ?thesis by (simp only: c_def n)
  qed
qed

subsection \<open>Learning and predicting\<close>

text \<open>
  Claim C5. \<open>learn\<close> on a file name with an unknown signature creates an entry with
  count 1; on a known signature with the same folder it adds one to the count; on a
  known signature with another folder it creates the entry \<open>signature + "_ALT"\<close> for
  the new folder with count 1 and keeps folder and count of the original entry when the
  stored count is above 3, and otherwise overwrites the folder and sets the count back
  to 1. In the three cases of a known signature the file name is also appended to the
  entry's examples, of which the last five are kept.
\<close>

theorem learn_update_rule:
  "(\<forall>sig. extract_signature filename = Inr sig \<and> pats sig = None \<longrightarrow>
       learn pats filename folder =
         Inr (pats(sig \<mapsto> \<lparr>pat_folder = folder, pat_count = 1, pat_examples = Some [filename]\<rparr>)))
   \<and> (\<forall>sig p. extract_signature filename = Inr sig \<and> pats sig = Some p \<and> pat_folder p = folder \<longrightarrow>
       learn pats filename folder =
         Inr (pats(sig \<mapsto> p\<lparr>pat_count := pat_count p + 1,
               pat_examples := Some (last5 ((case pat_examples p of None \<Rightarrow> [] | Some e \<Rightarrow> e)
                                            @ [filename]))\<rparr>)))
   \<and> (\<forall>sig p. extract_signature filename = Inr sig \<and> pats sig = Some p \<and> pat_folder p \<noteq> folder
          \<and> pat_count p > 3 \<longrightarrow>
       learn pats filename folder =
         Inr ((pats(sig @ ''_ALT'' \<mapsto>
                \<lparr>pat_folder = folder, pat_count = 1, pat_examples = Some [filename]\<rparr>))
              (sig \<mapsto> p\<lparr>pat_examples :=
                 Some (last5 ((case pat_examples p of None \<Rightarrow> [] | Some e \<Rightarrow> e) @ [filename]))\<rparr>))
       \<and> sig @ ''_ALT'' \<noteq> sig)
   \<and> (\<forall>sig p. extract_signature filename = Inr sig \<and> pats sig = Some p \<and> pat_folder p \<noteq> folder
          \<and> \<not> pat_count p > 3 \<longrightarrow>
       learn pats filename folder =
         Inr (pats(sig \<mapsto> p\<lparr>pat_folder := folder, pat_count := 1,
               pat_examples := Some (last5 ((case pat_examples p of None \<Rightarrow> [] | Some e \<Rightarrow> e)
                                            @ [filename]))\<rparr>)))"
  by (simp add: learn_def)

theorem learn_update_rule_witness:
  "extract_signature ''IMG_1234.jpg'' = Inr ''IMG_NNNN''
   \<and> learn Map.empty ''IMG_1234.jpg'' ''Cam'' =
       Inr (Map.empty(''IMG_NNNN'' \<mapsto>
              \<lparr>pat_folder = ''Cam'', pat_count = 1, pat_examples = Some [''IMG_1234.jpg'']\<rparr>))
   \<and> learn (Map.empty(''IMG_NNNN'' \<mapsto> \<lparr>pat_folder = ''Cam'', pat_count = 2, pat_examples = None\<rparr>))
         ''IMG_1234.jpg'' ''Cam'' =
       Inr (Map.empty(''IMG_NNNN'' \<mapsto>
              \<lparr>pat_folder = ''Cam'', pat_count = 3, pat_examples = Some [''IMG_1234.jpg'']\<rparr>))
   \<and> learn (Map.empty(''IMG_NNNN'' \<mapsto> \<lparr>pat_folder = ''Cam'', pat_count = 4, pat_examples = None\<rparr>))
         ''IMG_1234.jpg'' ''Trip'' =
       Inr (Map.empty(
              ''IMG_NNNN_ALT'' \<mapsto>
                \<lparr>pat_folder = ''Trip'', pat_count = 1, pat_examples = Some [''IMG_1234.jpg'']\<rparr>,
              ''IMG_NNNN'' \<mapsto>
                \<lparr>pat_folder = ''Cam'', pat_count = 4, pat_examples = Some [''IMG_1234.jpg'']\<rparr>))
   \<and> learn (Map.empty(''IMG_NNNN'' \<mapsto> \<lparr>pat_folder = ''Cam'', pat_count = 3, pat_examples = None\<rparr>))
         ''IMG_1234.jpg'' ''Trip'' =
       Inr (Map.empty(''IMG_NNNN'' \<mapsto>
              \<lparr>pat_folder = ''Trip'', pat_count = 1, pat_examples = Some [''IMG_1234.jpg'']\<rparr>))"
proof -
  let ?f = "''IMG_1234.jpg''" and ?s = "''IMG_NNNN''"
  let ?p2 = "\<lparr>pat_folder = ''Cam'', pat_count = 2, pat_examples = None\<rparr>"
  let ?p4 = "\<lparr>pat_folder = ''Cam'', pat_count = 4, pat_examples = None\<rparr>"
  let ?p3 = "\<lparr>pat_folder = ''Cam'', pat_count = 3, pat_examples = None\<rparr>"
  have sig: "extract_signature ?f = Inr ?s" by code_simp
  have h1: "extract_signature ?f = Inr ?s \<and> (Map.empty :: patterns) ?s = None"
    using sig by simp
  have h2: "extract_signature ?f = Inr ?s \<and> (Map.empty(?s \<mapsto> ?p2)) ?s = Some ?p2
            \<and> pat_folder ?p2 = ''Cam''"
    using sig by simp
  have h3: "extract_signature ?f = Inr ?s \<and> (Map.empty(?s \<mapsto> ?p4)) ?s = Some ?p4
            \<and> pat_folder ?p4 \<noteq> ''Trip'' \<and> pat_count ?p4 > 3"
    using sig by simp
  have h4: "extract_signature ?f = Inr ?s \<and> (Map.empty(?s \<mapsto> ?p3)) ?s = Some ?p3
            \<and> pat_folder ?p3 \<noteq> ''Trip'' \<and> \<not> pat_count ?p3 > 3"
    using sig by simp
  have c1: "learn Map.empty ?f ''Cam'' =
       Inr (Map.empty(?s \<mapsto> \<lparr>pat_folder = ''Cam'', pat_count = 1, pat_examples = Some [?f]\<rparr>))"
    by (rule learn_update_rule [where pats = Map.empty and filename = ?f and folder = "''Cam''",
          THEN conjunct1, rule_format, where sig = ?s, OF h1])
  have c2: "learn (Map.empty(?s \<mapsto> ?p2)) ?f ''Cam'' =
       Inr (Map.empty(?s \<mapsto> \<lparr>pat_folder = ''Cam'', pat_count = 3, pat_examples = Some [?f]\<rparr>))"
    using learn_update_rule [where pats = "Map.empty(?s \<mapsto> ?p2)" and filename = ?f
        and folder = "''Cam''", THEN conjunct2, THEN conjunct1, rule_format,
        where sig = ?s and p = ?p2, OF h2]
    by (simp add: last5_def)
  have c3: "learn (Map.empty(?s \<mapsto> ?p4)) ?f ''Trip'' =
       Inr (Map.empty(
              ''IMG_NNNN_ALT'' \<mapsto> \<lparr>pat_folder = ''Trip'', pat_count = 1, pat_examples = Some [?f]\<rparr>,
              ?s \<mapsto> \<lparr>pat_folder = ''Cam'', pat_count = 4, pat_examples = Some [?f]\<rparr>))"
    using learn_update_rule [where pats = "Map.empty(?s \<mapsto> ?p4)" and filename = ?f
        and folder = "''Trip''", THEN conjunct2, THEN conjunct2, THEN conjunct1, rule_format,
        where sig = ?s and p = ?p4, OF h3]
    by (simp add: last5_def)
  have c4: "learn (Map.empty(?s \<mapsto> ?p3)) ?f ''Trip'' =
       Inr (Map.empty(?s \<mapsto> \<lparr>pat_folder = ''Trip'', pat_count = 1, pat_examples = Some [?f]\<rparr>))"
    using learn_update_rule [where pats = "Map.empty(?s \<mapsto> ?p3)" and filename = ?f
        and folder = "''Trip''", THEN conjunct2, THEN conjunct2, THEN conjunct2, rule_format,
        where sig = ?s and p = ?p3, OF h4]
    by (simp add: last5_def)
  from sig c1 c2 c3 c4 show ?thesis by (intro conjI)
qed


lemma confidence_table:
  "min (float_lit (99 / 100)) (float_add (float_lit (80 / 100)) (float_mul (float_of_int 1) (float_lit (3 / 100)))) = 467248461339689 / 562949953421312"
    "min (float_lit (99 / 100)) (float_add (float_lit (80 / 100)) (float_mul (float_of_int 2) (float_lit (3 / 100)))) = 3873095679538627 / 4503599627370496"
    "min (float_lit (99 / 100)) (float_add (float_lit (80 / 100)) (float_mul (float_of_int 3) (float_lit (3 / 100)))) = 8016407336719483 / 9007199254740992"
    "min (float_lit (99 / 100)) (float_add (float_lit (80 / 100)) (float_mul (float_of_int 4) (float_lit (3 / 100)))) = 8286623314361713 / 9007199254740992"
    "min (float_lit (99 / 100)) (float_add (float_lit (80 / 100)) (float_mul (float_of_int 5) (float_lit (3 / 100)))) = 8556839292003943 / 9007199254740992"
    "min (float_lit (99 / 100)) (float_add (float_lit (80 / 100)) (float_mul (float_of_int 6) (float_lit (3 / 100)))) = 2206763817411543 / 2251799813685248"
  by code_simp+

lemma confidence_chain:
  "min (float_lit (99 / 100)) (float_add (float_lit (80 / 100)) (float_mul (float_of_int 1) (float_lit (3 / 100))))
     \<le> min (float_lit (99 / 100)) (float_add (float_lit (80 / 100)) (float_mul (float_of_int 2) (float_lit (3 / 100))))"
    "min (float_lit (99 / 100)) (float_add (float_lit (80 / 100)) (float_mul (float_of_int 2) (float_lit (3 / 100))))
     \<le> min (float_lit (99 / 100)) (float_add (float_lit (80 / 100)) (float_mul (float_of_int 3) (float_lit (3 / 100))))"
    "min (float_lit (99 / 100)) (float_add (float_lit (80 / 100)) (float_mul (float_of_int 3) (float_lit (3 / 100))))
     \<le> min (float_lit (99 / 100)) (float_add (float_lit (80 / 100)) (float_mul (float_of_int 4) (float_lit (3 / 100))))"
    "min (float_lit (99 / 100)) (float_add (float_lit (80 / 100)) (float_mul (float_of_int 4) (float_lit (3 / 100))))
     \<le> min (float_lit (99 / 100)) (float_add (float_lit (80 / 100)) (float_mul (float_of_int 5) (float_lit (3 / 100))))"
    "min (float_lit (99 / 100)) (float_add (float_lit (80 / 100)) (float_mul (float_of_int 5) (float_lit (3 / 100))))
     \<le> min (float_lit (99 / 100)) (float_add (float_lit (80 / 100)) (float_mul (float_of_int 6) (float_lit (3 / 100))))"
  unfolding confidence_table by simp_all

lemma confidence_step:
  assumes "1 \<le> m"
  shows "min (float_lit (99 / 100)) (float_add (float_lit (80 / 100)) (float_mul (float_of_int m) (float_lit (3 / 100))))
         \<le> min (float_lit (99 / 100)) (float_add (float_lit (80 / 100)) (float_mul (float_of_int (m + 1)) (float_lit (3 / 100))))"
proof -
  from assms consider "m = 1" | "m = 2" | "m = 3" | "m = 4" | "m = 5" | "6 \<le> m" by linarith
  then show ?thesis
  proof cases
    assume "m = 1"
    then show ?thesis using confidence_chain(1) by simp
  next
    assume "m = 2"
    then show ?thesis using confidence_chain(2) by simp
  next
    assume "m = 3"
    then show ?thesis using confidence_chain(3) by simp
  next
    assume "m = 4"
    then show ?thesis using confidence_chain(4) by simp
  next
    assume "m = 5"
    then show ?thesis using confidence_chain(5) by simp
  next
    assume "6 \<le> m"
    then have "7 \<le> m + 1" by simp
    from confidence_bounds(4) [OF this] confidence_bounds(1) [of m] show ?thesis by simp
  qed
qed

lemma confidence_mono:
  assumes "1 \<le> m" and "m \<le> n"
  shows "min (float_lit (99 / 100)) (float_add (float_lit (80 / 100)) (float_mul (float_of_int m) (float_lit (3 / 100))))
         \<le> min (float_lit (99 / 100)) (float_add (float_lit (80 / 100)) (float_mul (float_of_int n) (float_lit (3 / 100))))"
  using assms(2)
proof (induction n rule: int_ge_induct)
  case base
  show ?case by simp
next
  case (step i)
  from step.hyps assms(1) have "1 \<le> i" by simp
  from confidence_step [OF this] step.IH show ?case by (rule order_trans [rotated])
qed

text \<open>
  Claim C8, as stated: the confidence is 0.80 on the first use of a newly learned
  signature, where the count is 1. There the code computes 0.80 + 1 * 0.03 in floats,
  which is 0.8300000000000001 (the double 467248461339689 / 2^49), not 0.80.
\<close>

theorem first_use_confidence_counterexample:
  "learn Map.empty ''IMG_1234.jpg'' ''Cam'' =
     Inr (Map.empty(''IMG_NNNN'' \<mapsto>
            \<lparr>pat_folder = ''Cam'', pat_count = 1, pat_examples = Some [''IMG_1234.jpg'']\<rparr>))
   \<and> predict (Map.empty(''IMG_NNNN'' \<mapsto>
            \<lparr>pat_folder = ''Cam'', pat_count = 1, pat_examples = Some [''IMG_1234.jpg'']\<rparr>))
         ''IMG_1234.jpg'' = Inr (Some (''Cam'', 467248461339689 / 562949953421312))
   \<and> (467248461339689 / 562949953421312 :: rat) \<noteq> float_lit (80 / 100)
   \<and> (467248461339689 / 562949953421312 :: rat) \<noteq> 80 / 100
   \<and> (82 / 100 :: rat) < 467248461339689 / 562949953421312"
proof -
  have sig: "extract_signature ''IMG_1234.jpg'' = Inr ''IMG_NNNN''" by code_simp
  have l: "learn Map.empty ''IMG_1234.jpg'' ''Cam'' =
     Inr (Map.empty(''IMG_NNNN'' \<mapsto>
            \<lparr>pat_folder = ''Cam'', pat_count = 1, pat_examples = Some [''IMG_1234.jpg'']\<rparr>))"
    by (simp add: learn_def sig)
  have c: "min (float_lit (99 / 100))
             (float_add (float_lit (80 / 100)) (float_mul (float_of_int 1) (float_lit (3 / 100))))
           = 467248461339689 / 562949953421312"
    by code_simp
  have p: "predict (Map.empty(''IMG_NNNN'' \<mapsto>
            \<lparr>pat_folder = ''Cam'', pat_count = 1, pat_examples = Some [''IMG_1234.jpg'']\<rparr>))
         ''IMG_1234.jpg'' = Inr (Some (''Cam'', 467248461339689 / 562949953421312))"
    unfolding predict_def by (simp only: sig c [symmetric]) simp
  have n1: "(467248461339689 / 562949953421312 :: rat) \<noteq> float_lit (80 / 100)"
    unfolding float_lit_values by simp
  have n2: "(467248461339689 / 562949953421312 :: rat) \<noteq> 80 / 100" by simp
  have n3: "(82 / 100 :: rat) < 467248461339689 / 562949953421312" by simp
  from l p n1 n2 n3 show ?thesis by (intro conjI)
qed

text \<open>
  Claim C8, amended. For every stored signature whose count is at least 1 (and small
  enough to be converted to a float) \<open>predict\<close> returns the stored folder with the float
  min(0.99, 0.80 + count * 0.03). On the first use of a newly learned signature (count 1)
  this is 0.8300000000000001, between 0.83 and 0.83 + 10^-15; for every such count it is
  above 0.82, hence above the 0.80 of the smart-pattern heuristic; it is never above the
  float 0.99, which it equals from count 7 on, and so it stays below 1; and it does not
  decrease when the count grows.
\<close>

theorem predict_confidence:
  "\<forall>sig p. extract_signature f = Inr sig \<and> pats sig = Some p
      \<and> 1 \<le> pat_count p \<and> pat_count p < 2 ^ 1000 \<longrightarrow>
      (\<exists>c. predict pats f = Inr (Some (pat_folder p, c))
         \<and> c = min (float_lit (99 / 100))
                 (float_add (float_lit (80 / 100))
                    (float_mul (float_of_int (pat_count p)) (float_lit (3 / 100))))
         \<and> 82 / 100 < c
         \<and> c \<le> float_lit (99 / 100)
         \<and> float_lit (99 / 100) = 4458563631096791 / 4503599627370496
         \<and> c < 1
         \<and> (pat_count p = 1 \<longrightarrow>
               c = 467248461339689 / 562949953421312
               \<and> 83 / 100 < c \<and> c < 83 / 100 + 1 / 10 ^ 15)
         \<and> (7 \<le> pat_count p \<longrightarrow> c = float_lit (99 / 100))
         \<and> (\<forall>n. pat_count p \<le> n \<longrightarrow>
               c \<le> min (float_lit (99 / 100))
                     (float_add (float_lit (80 / 100))
                        (float_mul (float_of_int n) (float_lit (3 / 100))))))"
proof (intro allI impI)
  fix sig p
  assume a: "extract_signature f = Inr sig \<and> pats sig = Some p
      \<and> 1 \<le> pat_count p \<and> pat_count p < 2 ^ 1000"
  let ?c = "min (float_lit (99 / 100))
              (float_add (float_lit (80 / 100))
                 (float_mul (float_of_int (pat_count p)) (float_lit (3 / 100))))"
  from a have r: "predict pats f = Inr (Some (pat_folder p, ?c))"
    by (simp add: predict_def)
  from a have one: "1 \<le> pat_count p" by blast
  note b = confidence_bounds [of "pat_count p"]
  have first: "pat_count p = 1 \<longrightarrow>
               ?c = 467248461339689 / 562949953421312
               \<and> 83 / 100 < ?c \<and> ?c < 83 / 100 + 1 / 10 ^ 15"
  proof
    assume "pat_count p = 1"
    from b(5) [OF this] have v: "?c = 467248461339689 / 562949953421312" .
    show "?c = 467248461339689 / 562949953421312
               \<and> 83 / 100 < ?c \<and> ?c < 83 / 100 + 1 / 10 ^ 15"
      unfolding v by simp
  qed
  have cap: "7 \<le> pat_count p \<longrightarrow> ?c = float_lit (99 / 100)" using b(4) by blast
  have mono: "\<forall>n. pat_count p \<le> n \<longrightarrow>
               ?c \<le> min (float_lit (99 / 100))
                      (float_add (float_lit (80 / 100))
                         (float_mul (float_of_int n) (float_lit (3 / 100))))"
    using confidence_mono [OF one] by blast
  from r b(3) [OF one] b(1) float_lit_values(3) b(2) first cap mono
  show "\<exists>c. predict pats f = Inr (Some (pat_folder p, c))
         \<and> c = min (float_lit (99 / 100))
                 (float_add (float_lit (80 / 100))
                    (float_mul (float_of_int (pat_count p)) (float_lit (3 / 100))))
         \<and> 82 / 100 < c
         \<and> c \<le> float_lit (99 / 100)
         \<and> float_lit (99 / 100) = 4458563631096791 / 4503599627370496
         \<and> c < 1
         \<and> (pat_count p = 1 \<longrightarrow>
               c = 467248461339689 / 562949953421312
               \<and> 83 / 100 < c \<and> c < 83 / 100 + 1 / 10 ^ 15)
         \<and> (7 \<le> pat_count p \<longrightarrow> c = float_lit (99 / 100))
         \<and> (\<forall>n. pat_count p \<le> n \<longrightarrow>
               c \<le> min (float_lit (99 / 100))
                     (float_add (float_lit (80 / 100))
                        (float_mul (float_of_int n) (float_lit (3 / 100)))))"
    by (intro exI [of _ ?c] conjI refl)
qed

theorem predict_confidence_witness:
  "extract_signature ''IMG_1234.jpg'' = Inr ''IMG_NNNN''
   \<and> predict (Map.empty(''IMG_NNNN'' \<mapsto> \<lparr>pat_folder = ''Cam'', pat_count = 1, pat_examples = None\<rparr>))
        ''IMG_1234.jpg'' = Inr (Some (''Cam'', 467248461339689 / 562949953421312))
   \<and> predict (Map.empty(''IMG_NNNN'' \<mapsto> \<lparr>pat_folder = ''Cam'', pat_count = 7, pat_examples = None\<rparr>))
        ''IMG_1234.jpg'' = Inr (Some (''Cam'', 4458563631096791 / 4503599627370496))"
proof -
  let ?f = "''IMG_1234.jpg''" and ?s = "''IMG_NNNN''"
  let ?p1 = "\<lparr>pat_folder = ''Cam'', pat_count = 1, pat_examples = None\<rparr>"
  let ?p7 = "\<lparr>pat_folder = ''Cam'', pat_count = 7, pat_examples = None\<rparr>"
  let ?m1 = "Map.empty(?s \<mapsto> ?p1)" and ?m7 = "Map.empty(?s \<mapsto> ?p7)"
  have sig: "extract_signature ?f = Inr ?s" by code_simp
  have h1: "extract_signature ?f = Inr ?s \<and> ?m1 ?s = Some ?p1
            \<and> 1 \<le> pat_count ?p1 \<and> pat_count ?p1 < 2 ^ 1000"
    using sig by simp
  have h7: "extract_signature ?f = Inr ?s \<and> ?m7 ?s = Some ?p7
            \<and> 1 \<le> pat_count ?p7 \<and> pat_count ?p7 < 2 ^ 1000"
    using sig by simp
  from predict_confidence [where f = ?f and pats = ?m1, rule_format, where sig = ?s and p = ?p1, OF h1]
  obtain c where c: "predict ?m1 ?f = Inr (Some (pat_folder ?p1, c))"
    and c1: "pat_count ?p1 = 1 \<longrightarrow> c = 467248461339689 / 562949953421312
               \<and> 83 / 100 < c \<and> c < 83 / 100 + 1 / 10 ^ 15"
    by blast
  from c1 have cv: "c = 467248461339689 / 562949953421312" by simp
  from predict_confidence [where f = ?f and pats = ?m7, rule_format, where sig = ?s and p = ?p7, OF h7]
  obtain d where d: "predict ?m7 ?f = Inr (Some (pat_folder ?p7, d))"
    and d7: "7 \<le> pat_count ?p7 \<longrightarrow> d = float_lit (99 / 100)"
    and lit: "float_lit (99 / 100) = (4458563631096791 / 4503599627370496 :: rat)"
    by blast
  from d7 lit have dv: "d = 4458563631096791 / 4503599627370496" by simp
  from c d have "predict ?m1 ?f = Inr (Some (''Cam'', c))"
    and "predict ?m7 ?f = Inr (Some (''Cam'', d))" by simp_all
  with sig show ?thesis unfolding cv dv by (intro conjI)
qed

subsection \<open>Duplicates by hash\<close>

text \<open>
  Claim C10. When \<open>check_duplicate\<close> is called for a file name that already has rows in
  the table and the hash of the file cannot be computed, it answers \<open>(False, '')\<close>, as
  for a first occurrence, and leaves the table as it was.
\<close>

theorem check_duplicate_unreadable:
  "select_by_filename db filename \<noteq> [] \<and> compute_hash digests filepath = None \<longrightarrow>
     check_duplicate digests now db filename sz filepath = ((False, []), db)"
  by (simp add: check_duplicate_def)

theorem check_duplicate_unreadable_witness:
  "select_by_filename [(''a.jpg'', 10, ''9e107d9d372bb6826bd81d3542a419d6'', ''/in/1/a.jpg'', ''t0'')]
       ''a.jpg'' \<noteq> []
   \<and> compute_hash (\<lambda>p. None) ''/in/2/a.jpg'' = None
   \<and> check_duplicate (\<lambda>p. None) ''t1''
        [(''a.jpg'', 10, ''9e107d9d372bb6826bd81d3542a419d6'', ''/in/1/a.jpg'', ''t0'')]
        ''a.jpg'' 10 ''/in/2/a.jpg''
       = ((False, []),
          [(''a.jpg'', 10, ''9e107d9d372bb6826bd81d3542a419d6'', ''/in/1/a.jpg'', ''t0'')])"
proof -
  let ?db = "[(''a.jpg'', 10 :: int, ''9e107d9d372bb6826bd81d3542a419d6'', ''/in/1/a.jpg'', ''t0'')]"
  have h: "select_by_filename ?db ''a.jpg'' \<noteq> [] \<and> compute_hash (\<lambda>p. None) ''/in/2/a.jpg'' = None"
    by (simp add: select_by_filename_def compute_hash_def)
  from check_duplicate_unreadable [where db = ?db and filename = "''a.jpg''"
      and digests = "\<lambda>p. None" and filepath = "''/in/2/a.jpg''" and now = "''t1''" and sz = 10,
      rule_format, OF h] h
  show ?thesis by simp
qed

subsection \<open>Gaps in a sequence\<close>

lemma sorted_hd_Min:
  fixes xs :: "int list"
  assumes "sorted xs" and "xs \<noteq> []"
  shows "hd xs = Min (set xs)"
proof -
  from assms obtain y ys where xs: "xs = y # ys" by (cases xs) auto
  with assms have "\<forall>z \<in> set xs. y \<le> z" by auto
  then have "Min (set xs) = y" using xs by (intro Min_eqI) auto
  with xs show ?thesis by simp
qed

lemma sorted_last_Max:
  fixes xs :: "int list"
  assumes "sorted xs" and "xs \<noteq> []"
  shows "last xs = Max (set xs)"
proof -
  have "\<forall>z \<in> set xs. z \<le> last xs"
    using assms by (induction xs) (auto simp: )
  moreover have "last xs \<in> set xs" using assms by simp
  ultimately have "Max (set xs) = last xs" by (intro Max_eqI) auto
  then show ?thesis by simp
qed

lemma find_missing_files_set:
  assumes "files pd \<noteq> []"
  shows "set (find_missing_files pd) =
         {n. (if is_pure_numeric pd then 1 else Min (snd ` set (files pd))) \<le> n
             \<and> n \<le> Max (snd ` set (files pd)) \<and> n \<notin> snd ` set (files pd)}"
proof -
  let ?ns = "sort (map snd (files pd))"
  have ne: "?ns \<noteq> []" using assms by (metis length_0_conv length_map length_sort)
  have s: "set ?ns = snd ` set (files pd)" by simp
  have h: "hd ?ns = Min (snd ` set (files pd))"
    using sorted_hd_Min [OF sorted_sort ne] s by simp
  have l: "last ?ns = Max (snd ` set (files pd))"
    using sorted_last_Max [OF sorted_sort ne] s by simp
  show ?thesis
    using assms unfolding find_missing_files_def Let_def h l by auto
qed

lemma find_missing_files_sorted: "sorted (find_missing_files pd) \<and> distinct (find_missing_files pd)"
  by (simp add: find_missing_files_def Let_def sorted_filter [where f = "\<lambda>x. x", simplified])

text \<open>
  Claim C4. For a group with at least one file, \<open>find_missing_files\<close> returns, in
  ascending order and without repetition, exactly the integers that are not numbers of
  the group and lie between the start of the range and the largest number of the group;
  the range starts at 1 for a pure-numeric group and at the smallest number of the group
  otherwise. The files \<open>001.jpg\<close>, \<open>002.jpg\<close>, \<open>005.jpg\<close> form one pure-numeric group
  with the missing numbers 3 and 4; \<open>IMG_010.jpg\<close>, \<open>IMG_015.jpg\<close> form one prefixed
  group with the missing numbers 11 to 14.
\<close>

theorem find_missing_files_gaps:
  "(files pd \<noteq> [] \<longrightarrow>
      set (find_missing_files pd) =
        {n. (if is_pure_numeric pd then 1 else Min (snd ` set (files pd))) \<le> n
            \<and> n \<le> Max (snd ` set (files pd)) \<and> n \<notin> snd ` set (files pd)})
   \<and> sorted (find_missing_files pd) \<and> distinct (find_missing_files pd)
   \<and> map (\<lambda>(k, v). (is_pure_numeric v, map snd (files v), find_missing_files v))
        (detect_file_patterns [''001.jpg'', ''002.jpg'', ''005.jpg''])
      = [(True, [1, 2, 5], [3, 4])]
   \<and> map (\<lambda>(k, v). (is_pure_numeric v, map snd (files v), find_missing_files v))
        (detect_file_patterns [''IMG_010.jpg'', ''IMG_015.jpg''])
      = [(False, [10, 15], [11, 12, 13, 14])]"
proof (intro conjI impI)
  assume "files pd \<noteq> []"
  then show "set (find_missing_files pd) =
        {n. (if is_pure_numeric pd then 1 else Min (snd ` set (files pd))) \<le> n
            \<and> n \<le> Max (snd ` set (files pd)) \<and> n \<notin> snd ` set (files pd)}"
    by (rule find_missing_files_set)
next
  show "sorted (find_missing_files pd)" using find_missing_files_sorted by blast
next
  show "distinct (find_missing_files pd)" using find_missing_files_sorted by blast
next
  show "map (\<lambda>(k, v). (is_pure_numeric v, map snd (files v), find_missing_files v))
        (detect_file_patterns [''001.jpg'', ''002.jpg'', ''005.jpg''])
      = [(True, [1, 2, 5], [3, 4])]"
    by code_simp
next
  show "map (\<lambda>(k, v). (is_pure_numeric v, map snd (files v), find_missing_files v))
        (detect_file_patterns [''IMG_010.jpg'', ''IMG_015.jpg''])
      = [(False, [10, 15], [11, 12, 13, 14])]"
    by code_simp
qed

theorem find_missing_files_gaps_witness:
  "files \<lparr>files = [(''IMG_010.jpg'', 10), (''IMG_015.jpg'', 15)], prefix = ''IMG_'', suffix = [],
           padding = 3, extension = ''.jpg'', is_pure_numeric = False\<rparr> \<noteq> []
   \<and> set (find_missing_files
        \<lparr>files = [(''IMG_010.jpg'', 10), (''IMG_015.jpg'', 15)], prefix = ''IMG_'', suffix = [],
           padding = 3, extension = ''.jpg'', is_pure_numeric = False\<rparr>)
      = {n. 10 \<le> n \<and> n \<le> 15 \<and> n \<notin> {10, 15}}"
proof -
  let ?pd = "\<lparr>files = [(''IMG_010.jpg'', 10 :: int), (''IMG_015.jpg'', 15)], prefix = ''IMG_'',
              suffix = [], padding = 3, extension = ''.jpg'', is_pure_numeric = False\<rparr>"
  have h: "files ?pd \<noteq> []" by simp
  from find_missing_files_gaps [where pd = ?pd, THEN conjunct1, rule_format, OF h] h
  show ?thesis by simp
qed


subsection \<open>The decision matrix of move_file\<close>



































end
